theory Spec2Isabelle
  imports Main "HOL-Library.Word"
begin

unbundle bit_operations_syntax

section \<open>The physical page allocator (kernel/kalloc.c)\<close>

subsection \<open>Machine parameters\<close>

text \<open>
  kalloc.c includes memlayout.h and riscv.h, which are not among the sources. What it
  takes from them is a parameter of the model: the addresses \<open>KERNBASE\<close> and
  \<open>PHYSTOP\<close>, the linker symbol \<open>end\<close> (here \<open>kend\<close>, since \<open>end\<close> is a
  keyword), the page-table entry flag bits and the two macros that take a page-table
  entry apart. Addresses and page-table entries are \<open>uint64\<close>.
\<close>

record machine =
  KERNBASE :: "64 word"
  PHYSTOP :: "64 word"
  kend :: "64 word"
  PTE_V :: "64 word"
  PTE_W :: "64 word"
  PTE_COW :: "64 word"
  PTE2PA :: "64 word \<Rightarrow> 64 word"
  PTE_FLAGS :: "64 word \<Rightarrow> 64 word"

text \<open>The page size: the allocator "allocates whole 4096-byte pages".\<close>

definition PGSIZE :: "64 word" where
  "PGSIZE = 4096"

text \<open>
  Modelled from the spec: the address is "rounded down to its containing page"; riscv.h,
  which defines \<open>PGROUNDUP\<close> and \<open>PGROUNDDOWN\<close>, is not among the sources. Rounding down
  clears the offset inside the page; rounding up does the same after adding
  \<open>PGSIZE - 1\<close>, in 64-bit arithmetic.
\<close>

definition PGROUNDUP :: "64 word \<Rightarrow> 64 word" where
  "PGROUNDUP sz = (sz + PGSIZE - 1) AND NOT (PGSIZE - 1)"

definition PGROUNDDOWN :: "64 word \<Rightarrow> 64 word" where
  "PGROUNDDOWN a = a AND NOT (PGSIZE - 1)"

text \<open>\<open>#define PA2PGREF_ID(p) (((p)-KERNBASE)/PGSIZE)\<close>, in unsigned 64-bit arithmetic.\<close>

definition PA2PGREF_ID :: "machine \<Rightarrow> 64 word \<Rightarrow> 64 word" where
  "PA2PGREF_ID M p = (p - KERNBASE M) div PGSIZE"

definition PGREF_MAX_ENTRIES :: "machine \<Rightarrow> 64 word" where
  "PGREF_MAX_ENTRIES M = PA2PGREF_ID M (PHYSTOP M)"

subsection \<open>Physical memory\<close>

text \<open>
  Memory is a store of bytes. The free list is intrusive: \<open>struct run\<close> is one pointer,
  kept in the first eight bytes of a free page (little-endian, as on RISC-V).
\<close>

type_synonym memory = "64 word \<Rightarrow> 8 word"

definition memset :: "memory \<Rightarrow> 64 word \<Rightarrow> 8 word \<Rightarrow> 64 word \<Rightarrow> memory" where
  "memset m dst c n = (\<lambda>a. if a - dst < n then c else m a)"

definition memmove :: "memory \<Rightarrow> 64 word \<Rightarrow> 64 word \<Rightarrow> 64 word \<Rightarrow> memory" where
  "memmove m dst src n = (\<lambda>a. if a - dst < n then m (src + (a - dst)) else m a)"

definition byte_of :: "64 word \<Rightarrow> nat \<Rightarrow> 8 word" where
  "byte_of v i = ucast (drop_bit (8 * i) v)"

text \<open>\<open>r->next = v\<close> for \<open>r = (struct run*)p\<close>.\<close>

definition write_next :: "memory \<Rightarrow> 64 word \<Rightarrow> 64 word \<Rightarrow> memory" where
  "write_next m p v = (\<lambda>a. if a - p < 8 then byte_of v (unat (a - p)) else m a)"

text \<open>\<open>r->next\<close> for \<open>r = (struct run*)p\<close>.\<close>

definition read_next :: "memory \<Rightarrow> 64 word \<Rightarrow> 64 word" where
  "read_next m p =
     ucast (m p) OR push_bit 8 (ucast (m (p + 1))) OR push_bit 16 (ucast (m (p + 2)))
     OR push_bit 24 (ucast (m (p + 3))) OR push_bit 32 (ucast (m (p + 4)))
     OR push_bit 40 (ucast (m (p + 5))) OR push_bit 48 (ucast (m (p + 6)))
     OR push_bit 56 (ucast (m (p + 7)))"

subsection \<open>Allocator state\<close>

text \<open>
  \<open>kmem.freelist\<close> is the head pointer (0 is the null pointer); \<open>page_ref_list\<close> gives
  the \<open>cnt\<close> field (a C \<open>int\<close>, read as a signed 32-bit value by \<open>sint\<close>) of the entry at
  an index. The spinlocks are not modelled: the model runs one call at a time, where
  acquire and release have no effect.
\<close>

record kstate =
  mem :: memory
  freelist :: "64 word"
  page_ref_list :: "64 word \<Rightarrow> 32 word"

datatype fault = Panic string | Fault | Sleeps

subsection \<open>kfree, kalloc, krefpage\<close>

definition kfree :: "machine \<Rightarrow> 64 word \<Rightarrow> kstate \<Rightarrow> fault + kstate" where
  "kfree M pa s =
     (if pa mod PGSIZE \<noteq> 0 \<or> pa < kend M \<or> PHYSTOP M \<le> pa then Inl (Panic ''kfree'')
      else
        let i = PA2PGREF_ID M pa;
            s1 = s\<lparr>page_ref_list := (page_ref_list s)(i := page_ref_list s i - 1)\<rparr>
        in if 0 < sint (page_ref_list s1 i) then Inr s1
           else
             let m1 = memset (mem s1) pa 1 PGSIZE;
                 m2 = write_next m1 pa (freelist s1)
             in Inr (s1\<lparr>mem := m2, freelist := pa\<rparr>))"

text \<open>The result is the pointer returned, 0 when no page is free.\<close>

definition kalloc :: "machine \<Rightarrow> kstate \<Rightarrow> 64 word \<times> kstate" where
  "kalloc M s =
     (let r = freelist s;
          s1 = (if r \<noteq> 0 then s\<lparr>freelist := read_next (mem s) r\<rparr> else s)
      in if r \<noteq> 0 then
           let m1 = memset (mem s1) r 5 PGSIZE;
               i = PA2PGREF_ID M r
           in (r, s1\<lparr>mem := m1, page_ref_list := (page_ref_list s1)(i := 1)\<rparr>)
         else (r, s1))"

text \<open>The result is the C \<open>int\<close> returned: -1 for a rejected address, 1 otherwise.\<close>

definition krefpage :: "machine \<Rightarrow> 64 word \<Rightarrow> kstate \<Rightarrow> 32 word \<times> kstate" where
  "krefpage M pa s =
     (if pa mod PGSIZE \<noteq> 0 \<or> pa < kend M \<or> PHYSTOP M \<le> pa then (- 1, s)
      else
        let i = PA2PGREF_ID M pa
        in (1, s\<lparr>page_ref_list := (page_ref_list s)(i := page_ref_list s i + 1)\<rparr>))"

subsection \<open>kinit and freerange\<close>

text \<open>
  The loop of \<open>freerange\<close> stops at the first page that does not fit below \<open>pa_end\<close>;
  a panic of \<open>kfree\<close> ends it. Nothing in the loop itself bounds the number of rounds
  (the pointer may wrap around), so the loop is a partial function: \<open>None\<close> is a loop
  that never ends.
\<close>

partial_function (option) freerange_loop ::
    "machine \<Rightarrow> 64 word \<Rightarrow> 64 word \<Rightarrow> kstate \<Rightarrow> (fault + kstate) option" where
  "freerange_loop M p pa_end s =
     (if p + PGSIZE \<le> pa_end then
        (case kfree M p s of
           Inl e \<Rightarrow> Some (Inl e)
         | Inr s' \<Rightarrow> freerange_loop M (p + PGSIZE) pa_end s')
      else Some (Inr s))"

definition freerange :: "machine \<Rightarrow> 64 word \<Rightarrow> 64 word \<Rightarrow> kstate \<Rightarrow> (fault + kstate) option" where
  "freerange M pa_start pa_end s = freerange_loop M (PGROUNDUP pa_start) pa_end s"

text \<open>
  The first loop of \<open>kinit\<close>: \<open>init_refs n\<close> is the state of the table after the rounds
  \<open>i = 0, ..., n - 1\<close>, each of which sets \<open>page_ref_list[i].cnt = 1\<close>.
\<close>

primrec init_refs :: "nat \<Rightarrow> (64 word \<Rightarrow> 32 word) \<Rightarrow> (64 word \<Rightarrow> 32 word)" where
  "init_refs 0 c = c"
| "init_refs (Suc n) c = (init_refs n c)(of_nat n := 1)"

definition kinit :: "machine \<Rightarrow> kstate \<Rightarrow> (fault + kstate) option" where
  "kinit M s =
     freerange M (kend M) (PHYSTOP M)
       (s\<lparr>page_ref_list := init_refs (unat (PGREF_MAX_ENTRIES M)) (page_ref_list s)\<rparr>)"

text \<open>
  The state \<open>kinit\<close> starts from: \<open>kmem\<close> and \<open>page_ref_list\<close> have static storage, so
  the free list is null and every count is 0; the contents of memory are arbitrary.
\<close>

definition boot_state :: "memory \<Rightarrow> kstate" where
  "boot_state m = \<lparr>mem = m, freelist = 0, page_ref_list = (\<lambda>i. 0)\<rparr>"

subsection \<open>cow_copy\<close>

text \<open>
  The page table is outside kalloc.c. It is a map from the page-aligned virtual address
  to the page-table entry stored for it; writing through the pointer that \<open>walk\<close> returns
  updates that map.
\<close>

type_synonym pagetable = "64 word \<rightharpoonup> 64 word"

text \<open>
  Modelled from the spec: \<open>lookupEntry(table, vaddr) -> entry_or_absent\<close>; \<open>walk\<close> is not
  among the sources. The entry is the one of the page that holds \<open>va\<close>; \<open>None\<close> is the null
  pointer.
\<close>

definition walk :: "pagetable \<Rightarrow> 64 word \<Rightarrow> 64 word option" where
  "walk pagetable va = pagetable (PGROUNDDOWN va)"

text \<open>
  Modelled from the spec: \<open>mapPages(table, vaddr, length, paddr, flags) -> success|failure\<close>;
  \<open>mappages\<close> is not among the sources. It is a parameter of \<open>cow_copy\<close>: a function that
  yields the new page table on success and \<open>None\<close> on failure, when it leaves the table
  as it found it.
\<close>

type_synonym mappages_t =
  "pagetable \<Rightarrow> 64 word \<Rightarrow> 64 word \<Rightarrow> 64 word \<Rightarrow> 64 word \<Rightarrow> pagetable option"

text \<open>
  The result of \<open>cow_copy\<close> is the address returned, the page table and the allocator state.
  \<open>walk\<close> returning null makes \<open>*pte\<close> a fault.
\<close>

definition cow_copy ::
    "machine \<Rightarrow> mappages_t \<Rightarrow> pagetable \<Rightarrow> 64 word \<Rightarrow> kstate
      \<Rightarrow> fault + (64 word \<times> pagetable \<times> kstate)" where
  "cow_copy M mappages pagetable va0 s =
     (let va = PGROUNDDOWN va0 in
      case walk pagetable va of
        None \<Rightarrow> Inl Fault
      | Some pte \<Rightarrow>
          let pa = PTE2PA M pte in
          if page_ref_list s (PA2PGREF_ID M pa) = 1 then
            let pte1 = pte AND NOT (PTE_COW M);
                pte2 = pte1 OR PTE_W M
            in Inr (pa, pagetable(PGROUNDDOWN va \<mapsto> pte2), s)
          else
            let (newpa, s1) = kalloc M s in
            if newpa = 0 then Inr (0, pagetable, s1)
            else
              let s2 = s1\<lparr>mem := memmove (mem s1) newpa pa PGSIZE\<rparr>;
                  pte1 = pte AND NOT (PTE_V M);
                  pagetable1 = pagetable(PGROUNDDOWN va \<mapsto> pte1);
                  flag0 = PTE_FLAGS M pte1;
                  flag1 = flag0 OR PTE_W M;
                  flag = flag1 AND NOT (PTE_COW M)
              in case mappages pagetable1 va PGSIZE newpa flag of
                   None \<Rightarrow>
                     (case kfree M newpa s2 of
                        Inl e \<Rightarrow> Inl e
                      | Inr s3 \<Rightarrow> Inr (0, pagetable1, s3))
                 | Some pagetable2 \<Rightarrow>
                     (case kfree M (PGROUNDDOWN pa) s2 of
                        Inl e \<Rightarrow> Inl e
                      | Inr s3 \<Rightarrow> Inr (newpa, pagetable2, s3)))"

subsection \<open>The free list as a list of frames\<close>

text \<open>
  \<open>free_list m p xs\<close>: following the \<open>next\<close> pointers from \<open>p\<close> in memory \<open>m\<close> visits the
  frames \<open>xs\<close> in this order and then reaches the null pointer.
\<close>

primrec free_list :: "memory \<Rightarrow> 64 word \<Rightarrow> 64 word list \<Rightarrow> bool" where
  "free_list m p [] \<longleftrightarrow> p = 0"
| "free_list m p (x # xs) \<longleftrightarrow> p = x \<and> x \<noteq> 0 \<and> free_list m (read_next m x) xs"

definition page_aligned :: "64 word \<Rightarrow> bool" where
  "page_aligned p \<longleftrightarrow> p mod PGSIZE = 0"

text \<open>The frames on the free list of a state: distinct pages, each page-aligned.\<close>

definition free_frames :: "kstate \<Rightarrow> 64 word list \<Rightarrow> bool" where
  "free_frames s xs \<longleftrightarrow>
     free_list (mem s) (freelist s) xs \<and> distinct xs \<and> list_all page_aligned xs"

text \<open>Calling \<open>kalloc\<close> \<open>n\<close> times in a row: the pointers returned, in order, and the final state.\<close>

fun kalloc_times :: "machine \<Rightarrow> nat \<Rightarrow> kstate \<Rightarrow> 64 word list \<times> kstate" where
  "kalloc_times M 0 s = ([], s)"
| "kalloc_times M (Suc n) s =
     (let (r, s1) = kalloc M s;
          (rs, s2) = kalloc_times M n s1
      in (r # rs, s2))"

text \<open>
  The layouts the allocator is built for: the kernel image ends inside the physical
  memory \<open>[KERNBASE, PHYSTOP)\<close>, address 0 is not part of it, rounding up to a page and
  stepping by a page never wrap around, and the table index fits the \<open>int\<close> loop counter
  of \<open>kinit\<close>.
\<close>

definition valid_layout :: "machine \<Rightarrow> bool" where
  "valid_layout M \<longleftrightarrow>
     0 < KERNBASE M \<and> KERNBASE M \<le> kend M \<and> kend M \<le> PHYSTOP M \<and>
     unat (PHYSTOP M) + 2 * 4096 < 2 ^ 64 \<and>
     unat (PGREF_MAX_ENTRIES M) < 2 ^ 31"

section \<open>The buffer cache (kernel/bio.c)\<close>

subsection \<open>Buffers and the cache\<close>

text \<open>
  \<open>struct buf\<close> is declared in buf.h, which is not among the sources; the fields bio.c
  uses are modelled with the types of their uses: \<open>dev\<close> and \<open>blockno\<close> are the \<open>uint\<close>
  arguments of \<open>bget\<close>, \<open>timestamp\<close> receives the \<open>uint\<close> \<open>ticks\<close> and is compared with the
  \<open>uint\<close> \<open>mintimestamp\<close>, \<open>refcnt\<close> is an unsigned counter, \<open>valid\<close> is a flag holding 0 or 1.
  \<open>locked\<close> says that the buffer's sleep-lock is held. The block's data is not modelled:
  no function of bio.c reads it, and \<open>virtio_disk_rw\<close> touches nothing else.

  A buffer is denoted by its index in the array \<open>bcache.buf\<close>. The chain of a bucket, from
  \<open>bcache.buckets[i].next\<close> along the \<open>next\<close> pointers to the null pointer, is the list of
  the buffers on it, in that order. The spinlocks are not modelled: the model runs one
  call at a time.
\<close>

record buf =
  valid :: "32 word"
  dev :: "32 word"
  blockno :: "32 word"
  locked :: bool
  refcnt :: "32 word"
  timestamp :: "32 word"

record bcache =
  bufs :: "buf list"
  bcache_size :: nat
  buckets :: "nat list list"

text \<open>
  \<open>NBUF\<close> comes from param.h, which is not among the sources, and is a parameter. The
  number of buckets is a parameter too; bio.c sets it to 13.
\<close>

definition NBUCKET :: nat where
  "NBUCKET = 13"

definition HASH :: "nat \<Rightarrow> 32 word \<Rightarrow> nat" where
  "HASH nbucket n = unat n mod nbucket"

text \<open>
  \<open>binit\<close> sets \<open>size\<close> to 0 and initialises the locks; the buffers and the bucket heads
  have static storage and start zeroed.
\<close>

definition binit :: "nat \<Rightarrow> nat \<Rightarrow> bcache" where
  "binit nbuf nbucket =
     \<lparr>bufs = replicate nbuf
        \<lparr>valid = 0, dev = 0, blockno = 0, locked = False, refcnt = 0, timestamp = 0\<rparr>,
      bcache_size = 0,
      buckets = replicate nbucket []\<rparr>"

text \<open>
  \<open>acquiresleep(&b->lock)\<close>: with the lock free the caller takes it; with the lock held
  the caller sleeps, and in a run of one call at a time nothing wakes it.
\<close>

definition acquiresleep :: "nat \<Rightarrow> bcache \<Rightarrow> fault + (nat \<times> bcache)" where
  "acquiresleep b c =
     (if locked (bufs c ! b) then Inl Sleeps
      else Inr (b, c\<lparr>bufs := (bufs c)[b := (bufs c ! b)\<lparr>locked := True\<rparr>]\<rparr>))"

subsection \<open>bget\<close>

text \<open>The first loop of \<open>bget\<close>: the first buffer on the chain with the wanted key.\<close>

fun find_cached :: "buf list \<Rightarrow> 32 word \<Rightarrow> 32 word \<Rightarrow> nat list \<Rightarrow> nat option" where
  "find_cached bs d n [] = None"
| "find_cached bs d n (b # rest) =
     (if dev (bs ! b) = d \<and> blockno (bs ! b) = n then Some b
      else find_cached bs d n rest)"

text \<open>
  The inner loop of the eviction scan over one chain. \<open>target\<close> is
  \<open>idx == HASH(blockno)\<close>; the result is \<open>Inl b\<close> when the wanted block is found on the way,
  and otherwise \<open>minb\<close> and \<open>mintimestamp\<close> as the loop leaves them.
\<close>

fun scan_bucket ::
    "buf list \<Rightarrow> bool \<Rightarrow> 32 word \<Rightarrow> 32 word \<Rightarrow> nat list \<Rightarrow> nat option \<Rightarrow> 32 word
      \<Rightarrow> nat + (nat option \<times> 32 word)" where
  "scan_bucket bs target d n [] minb mintimestamp = Inr (minb, mintimestamp)"
| "scan_bucket bs target d n (b # rest) minb mintimestamp =
     (if target \<and> dev (bs ! b) = d \<and> blockno (bs ! b) = n then Inl b
      else if refcnt (bs ! b) = 0 \<and> timestamp (bs ! b) < mintimestamp
        then scan_bucket bs target d n rest (Some b) (timestamp (bs ! b))
        else scan_bucket bs target d n rest minb mintimestamp)"

text \<open>
  The outer loop of the eviction scan, with \<open>k\<close> rounds to go and the bucket \<open>idx\<close> to
  visit next. \<open>mintimestamp = -1\<close> is the largest \<open>uint\<close>. Unlinking \<open>minb\<close> through
  \<open>minpre\<close> removes it from its chain; it is then put at the head of the chain of its
  new bucket.
\<close>

fun evict_loop ::
    "nat \<Rightarrow> nat \<Rightarrow> nat \<Rightarrow> 32 word \<Rightarrow> 32 word \<Rightarrow> bcache \<Rightarrow> fault + (nat \<times> bcache)" where
  "evict_loop nbucket 0 idx d n c = Inl (Panic ''bget: no buffers'')"
| "evict_loop nbucket (Suc k) idx d n c =
     (case scan_bucket (bufs c) (idx = HASH nbucket n) d n (buckets c ! idx) None (- 1) of
        Inl b \<Rightarrow>
          acquiresleep b
            (c\<lparr>bufs := (bufs c)[b := (bufs c ! b)\<lparr>refcnt := refcnt (bufs c ! b) + 1\<rparr>]\<rparr>)
      | Inr (Some minb, mintimestamp) \<Rightarrow>
          let c1 = c\<lparr>bufs := (bufs c)[minb :=
                      (bufs c ! minb)\<lparr>dev := d, blockno := n, valid := 0, refcnt := 1\<rparr>]\<rparr>;
              c2 = (if idx \<noteq> HASH nbucket n then
                      let c' = c1\<lparr>buckets := (buckets c1)[idx := remove1 minb (buckets c1 ! idx)]\<rparr>;
                          idx' = HASH nbucket n
                      in c'\<lparr>buckets := (buckets c')[idx' := minb # buckets c' ! idx']\<rparr>
                    else c1)
          in acquiresleep minb c2
      | Inr (None, mintimestamp) \<Rightarrow>
          evict_loop nbucket k (if idx + 1 = nbucket then 0 else idx + 1) d n c)"

text \<open>The result of \<open>bget\<close> is the buffer returned and the cache it leaves.\<close>

definition bget :: "nat \<Rightarrow> nat \<Rightarrow> 32 word \<Rightarrow> 32 word \<Rightarrow> bcache \<Rightarrow> fault + (nat \<times> bcache)" where
  "bget nbuf nbucket d n c =
     (let idx = HASH nbucket n in
      case find_cached (bufs c) d n (buckets c ! idx) of
        Some b \<Rightarrow>
          acquiresleep b
            (c\<lparr>bufs := (bufs c)[b := (bufs c ! b)\<lparr>refcnt := refcnt (bufs c ! b) + 1\<rparr>]\<rparr>)
      | None \<Rightarrow>
          if bcache_size c < nbuf then
            let b = bcache_size c;
                c1 = c\<lparr>bcache_size := bcache_size c + 1\<rparr>;
                c2 = c1\<lparr>bufs := (bufs c1)[b :=
                        (bufs c1 ! b)\<lparr>dev := d, blockno := n, valid := 0, refcnt := 1\<rparr>]\<rparr>;
                c3 = c2\<lparr>buckets := (buckets c2)[idx := b # buckets c2 ! idx]\<rparr>
            in acquiresleep b c3
          else evict_loop nbucket nbucket idx d n c)"

subsection \<open>bread, bwrite, brelse, bpin, bunpin\<close>

definition bread :: "nat \<Rightarrow> nat \<Rightarrow> 32 word \<Rightarrow> 32 word \<Rightarrow> bcache \<Rightarrow> fault + (nat \<times> bcache)" where
  "bread nbuf nbucket d n c =
     (case bget nbuf nbucket d n c of
        Inl e \<Rightarrow> Inl e
      | Inr (b, c1) \<Rightarrow>
          if valid (bufs c1 ! b) = 0
          then Inr (b, c1\<lparr>bufs := (bufs c1)[b := (bufs c1 ! b)\<lparr>valid := 1\<rparr>]\<rparr>)
          else Inr (b, c1))"

definition bwrite :: "nat \<Rightarrow> bcache \<Rightarrow> fault + bcache" where
  "bwrite b c = (if \<not> locked (bufs c ! b) then Inl (Panic ''bwrite'') else Inr c)"

text \<open>\<open>ticks\<close> is a global of the kernel that the timer advances: an argument here.\<close>

definition brelse :: "32 word \<Rightarrow> nat \<Rightarrow> bcache \<Rightarrow> fault + bcache" where
  "brelse ticks b c =
     (if \<not> locked (bufs c ! b) then Inl (Panic ''brelse'')
      else
        let b1 = (bufs c ! b)\<lparr>locked := False\<rparr>;
            b2 = b1\<lparr>refcnt := refcnt b1 - 1\<rparr>;
            b3 = (if refcnt b2 = 0 then b2\<lparr>timestamp := ticks\<rparr> else b2)
        in Inr (c\<lparr>bufs := (bufs c)[b := b3]\<rparr>))"

definition bpin :: "nat \<Rightarrow> bcache \<Rightarrow> bcache" where
  "bpin b c = c\<lparr>bufs := (bufs c)[b := (bufs c ! b)\<lparr>refcnt := refcnt (bufs c ! b) + 1\<rparr>]\<rparr>"

definition bunpin :: "nat \<Rightarrow> bcache \<Rightarrow> bcache" where
  "bunpin b c = c\<lparr>bufs := (bufs c)[b := (bufs c ! b)\<lparr>refcnt := refcnt (bufs c ! b) - 1\<rparr>]\<rparr>"

subsection \<open>Runs of reads and releases\<close>

text \<open>Reading a list of blocks in order: the buffers returned, in order, and the final cache.\<close>

fun bread_all ::
    "nat \<Rightarrow> nat \<Rightarrow> (32 word \<times> 32 word) list \<Rightarrow> bcache \<Rightarrow> fault + (nat list \<times> bcache)" where
  "bread_all nbuf nbucket [] c = Inr ([], c)"
| "bread_all nbuf nbucket ((d, n) # ks) c =
     (case bread nbuf nbucket d n c of
        Inl e \<Rightarrow> Inl e
      | Inr (b, c1) \<Rightarrow>
          (case bread_all nbuf nbucket ks c1 of
             Inl e \<Rightarrow> Inl e
           | Inr (bs, c2) \<Rightarrow> Inr (b # bs, c2)))"

text \<open>Releasing buffers in the order of the list, each at the value of \<open>ticks\<close> given with it.\<close>

fun brelse_all :: "(nat \<times> 32 word) list \<Rightarrow> bcache \<Rightarrow> fault + bcache" where
  "brelse_all [] c = Inr c"
| "brelse_all ((b, ticks) # rs) c =
     (case brelse ticks b c of
        Inl e \<Rightarrow> Inl e
      | Inr c1 \<Rightarrow> brelse_all rs c1)"

section \<open>Auxiliary definitions\<close>

text \<open>\<open>m'\<close> differs from \<open>m\<close> at most inside the page that starts at \<open>x\<close>.\<close>

definition same_outside_page :: "64 word \<Rightarrow> memory \<Rightarrow> memory \<Rightarrow> bool" where
  "same_outside_page x m m' \<longleftrightarrow> (\<forall>a. \<not> a - x < PGSIZE \<longrightarrow> m' a = m a)"

text \<open>The number of pages \<open>freerange\<close> visits at boot, from the first page boundary at or
  after \<open>end\<close> to the last whole page below \<open>PHYSTOP\<close>.\<close>

definition nframes :: "machine \<Rightarrow> nat" where
  "nframes M = (unat (PHYSTOP M) - unat (PGROUNDUP (kend M))) div 4096"

text \<open>
  A small machine for running the model: the page-table macros of the RISC-V Sv39 scheme
  and a physical memory of three pages, of which the kernel image takes half a page.
\<close>

definition tiny :: machine where
  "tiny = \<lparr>KERNBASE = 0x80000000, PHYSTOP = 0x80003000, kend = 0x80000800,
            PTE_V = 1, PTE_W = 4, PTE_COW = 256,
            PTE2PA = (\<lambda>pte. push_bit 12 (drop_bit 10 pte)),
            PTE_FLAGS = (\<lambda>pte. pte AND 0x3FF)\<rparr>"

text \<open>An allocator state with an empty free list and the same count in every entry.\<close>

definition all_refs :: "32 word \<Rightarrow> kstate" where
  "all_refs c = \<lparr>mem = (\<lambda>a. 0), freelist = 0, page_ref_list = (\<lambda>i. c)\<rparr>"

text \<open>Calling \<open>krefpage(pa)\<close> \<open>n\<close> times in a row: the values returned and the final state.\<close>

fun krefpage_times :: "machine \<Rightarrow> nat \<Rightarrow> 64 word \<Rightarrow> kstate \<Rightarrow> 32 word list \<times> kstate" where
  "krefpage_times M 0 pa s = ([], s)"
| "krefpage_times M (Suc n) pa s =
     (let (r, s1) = krefpage M pa s;
          (rs, s2) = krefpage_times M n pa s1
      in (r # rs, s2))"

text \<open>Calling \<open>kfree(pa)\<close> \<open>n\<close> times in a row; a panic ends the run.\<close>

fun kfree_times :: "machine \<Rightarrow> nat \<Rightarrow> 64 word \<Rightarrow> kstate \<Rightarrow> fault + kstate" where
  "kfree_times M 0 pa s = Inr s"
| "kfree_times M (Suc n) pa s =
     (case kfree M pa s of
        Inl e \<Rightarrow> Inl e
      | Inr s1 \<Rightarrow> kfree_times M n pa s1)"

text \<open>
  Two instances of \<open>mappages\<close>: one that installs the entry for a single page, with the
  physical page number above the ten flag bits, and one that always fails.
\<close>

definition mappages_one :: "machine \<Rightarrow> mappages_t" where
  "mappages_one M pagetable va sz pa perm =
     Some (pagetable(va \<mapsto> push_bit 10 (drop_bit 12 pa) OR perm OR PTE_V M))"

definition mappages_none :: mappages_t where
  "mappages_none pagetable va sz pa perm = None"

text \<open>
  A page table with one copy-on-write page: the page at virtual address \<open>0x4000\<close> maps the
  frame \<open>0x80002000\<close> with the flags valid, readable, user and copy-on-write.
\<close>

definition cow_pagetable :: pagetable where
  "cow_pagetable = [0x4000 \<mapsto> 0x20000913]"

text \<open>
  An allocator state in which the frame \<open>0x80002000\<close> has two owners and the frame
  \<open>0x80001000\<close> is the only one on the free list.
\<close>

definition shared_state :: kstate where
  "shared_state =
     \<lparr>mem = write_next (\<lambda>a. 0) 0x80001000 0, freelist = 0x80001000,
      page_ref_list = (\<lambda>i. 0)(2 := 2)\<rparr>"

text \<open>
  The allocator states reachable from boot by the exposed operations, each applied to
  any argument: \<open>kfree\<close> returns (does not panic) exactly on the addresses that pass its
  alignment and range check, and \<open>cow_copy\<close> runs on any page table.
\<close>

inductive reachable :: "machine \<Rightarrow> mappages_t \<Rightarrow> kstate \<Rightarrow> bool" for M mappages where
  boot: "kinit M (boot_state m) = Some (Inr s) \<Longrightarrow> reachable M mappages s"
| kalloc: "reachable M mappages s \<Longrightarrow> reachable M mappages (snd (kalloc M s))"
| kfree: "reachable M mappages s \<Longrightarrow> kfree M pa s = Inr s' \<Longrightarrow> reachable M mappages s'"
| krefpage: "reachable M mappages s \<Longrightarrow> reachable M mappages (snd (krefpage M pa s))"
| cow_copy: "reachable M mappages s \<Longrightarrow>
     cow_copy M mappages pagetable va s = Inr (r, pagetable', s') \<Longrightarrow> reachable M mappages s'"

text \<open>
  The states reachable when the operations that give up a reference are applied to live
  frames only: \<open>kfree\<close> to a frame whose count is at least 1, \<open>cow_copy\<close> to a page whose
  frame has a count of at least 1; and \<open>krefpage\<close> while the count is below the largest
  \<open>int\<close>.
\<close>

inductive reachable_live :: "machine \<Rightarrow> mappages_t \<Rightarrow> kstate \<Rightarrow> bool" for M mappages where
  boot: "kinit M (boot_state m) = Some (Inr s) \<Longrightarrow> reachable_live M mappages s"
| kalloc: "reachable_live M mappages s \<Longrightarrow> reachable_live M mappages (snd (kalloc M s))"
| kfree: "reachable_live M mappages s \<Longrightarrow> 0 < sint (page_ref_list s (PA2PGREF_ID M pa)) \<Longrightarrow>
     kfree M pa s = Inr s' \<Longrightarrow> reachable_live M mappages s'"
| krefpage: "reachable_live M mappages s \<Longrightarrow>
     sint (page_ref_list s (PA2PGREF_ID M pa)) < 2 ^ 31 - 1 \<Longrightarrow>
     reachable_live M mappages (snd (krefpage M pa s))"
| cow_copy: "reachable_live M mappages s \<Longrightarrow> walk pagetable va = Some pte \<Longrightarrow>
     0 < sint (page_ref_list s (PA2PGREF_ID M (PGROUNDDOWN (PTE2PA M pte)))) \<Longrightarrow>
     cow_copy M mappages pagetable va s = Inr (r, pagetable', s') \<Longrightarrow>
     reachable_live M mappages s'"

text \<open>The state of the small machine after \<open>kinit\<close>, from zeroed memory.\<close>

definition tiny_booted :: kstate where
  "tiny_booted =
     \<lparr>mem = write_next (memset (write_next (memset (\<lambda>a. 0) 0x80001000 1 PGSIZE) 0x80001000 0)
               0x80002000 1 PGSIZE) 0x80002000 0x80001000,
      freelist = 0x80002000,
      page_ref_list = (\<lambda>i. 0)(0 := 1, 1 := 0, 2 := 0)\<rparr>"

text \<open>Every reference count, read as a signed \<open>int\<close>, is at least 0.\<close>

definition refs_nonneg :: "kstate \<Rightarrow> bool" where
  "refs_nonneg s \<longleftrightarrow> (\<forall>i. 0 \<le> sint (page_ref_list s i))"

text \<open>
  A buffer as \<open>bread\<close> returns it from a fresh slot, and a buffer held once after
  \<open>brelse\<close> at the tick \<open>t\<close>.
\<close>

definition cached :: "32 word \<Rightarrow> 32 word \<Rightarrow> buf" where
  "cached d n = \<lparr>valid = 1, dev = d, blockno = n, locked = True, refcnt = 1, timestamp = 0\<rparr>"

definition released :: "32 word \<Rightarrow> buf \<Rightarrow> buf" where
  "released t b = b\<lparr>locked := False, refcnt := 0, timestamp := t\<rparr>"

text \<open>
  The cache of four buffers and two buckets after the blocks 1, 2, 3, 4 of device 0 have
  been read in order; the same cache after buffer \<open>i\<close> has been released at the tick
  \<open>t\<^sub>i\<close>; and the cache after only buffer 0 has been released, at tick 7.
\<close>

definition four_read :: bcache where
  "four_read =
     \<lparr>bufs = [cached 0 1, cached 0 2, cached 0 3, cached 0 4],
      bcache_size = 4,
      buckets = [[3, 1], [2, 0]]\<rparr>"

definition four_released :: "32 word \<Rightarrow> 32 word \<Rightarrow> 32 word \<Rightarrow> 32 word \<Rightarrow> bcache" where
  "four_released t0 t1 t2 t3 =
     \<lparr>bufs = [released t0 (cached 0 1), released t1 (cached 0 2),
              released t2 (cached 0 3), released t3 (cached 0 4)],
      bcache_size = 4,
      buckets = [[3, 1], [2, 0]]\<rparr>"

definition one_released :: bcache where
  "one_released = four_read\<lparr>bufs := (bufs four_read)[0 := released 7 (cached 0 1)]\<rparr>"

text \<open>
  The buffers the eviction scan can take: \<open>refcnt == 0\<close> and a timestamp below the
  initial \<open>mintimestamp\<close>. The key of a buffer is its device and block number.
\<close>

definition evictable :: "buf list \<Rightarrow> nat \<Rightarrow> bool" where
  "evictable bs b \<longleftrightarrow> refcnt (bs ! b) = 0 \<and> timestamp (bs ! b) < - 1"

definition key_of :: "buf list \<Rightarrow> nat \<Rightarrow> 32 word \<times> 32 word" where
  "key_of bs b = (dev (bs ! b), blockno (bs ! b))"

section \<open>Properties of the page allocator\<close>

subsection \<open>Memory, pages and the free list\<close>

lemma bit_byte_of:
  "bit (push_bit (8 * k) (ucast (byte_of v k) :: 64 word)) n \<longleftrightarrow> 8 * k \<le> n \<and> n < 8 * k + 8 \<and> bit v n"
  unfolding byte_of_def
  by (auto simp add: bit_simps dest: bit_imp_le_length)

lemma read_next_cong:
  assumes "\<And>k. k < 8 \<Longrightarrow> m1 (p + k) = m2 (p + k)"
  shows "read_next m1 p = read_next m2 p"
proof -
  have "m1 (p + 0) = m2 (p + 0)" "m1 (p + 1) = m2 (p + 1)" "m1 (p + 2) = m2 (p + 2)"
       "m1 (p + 3) = m2 (p + 3)" "m1 (p + 4) = m2 (p + 4)" "m1 (p + 5) = m2 (p + 5)"
       "m1 (p + 6) = m2 (p + 6)" "m1 (p + 7) = m2 (p + 7)"
    by (rule assms, simp)+
  then show ?thesis by (simp add: read_next_def)
qed

lemma aligned_unat: "page_aligned d \<longleftrightarrow> unat d mod 4096 = 0"
proof -
  have "unat (d mod 4096) = unat d mod 4096" by (simp add: unat_mod)
  then show ?thesis
    by (simp add: page_aligned_def PGSIZE_def) (metis unat_eq_0)
qed

lemma aligned_unat_mult: "page_aligned d \<Longrightarrow> \<exists>q. unat d = 4096 * q \<and> q < 2 ^ 52"
proof -
  assume "page_aligned d"
  then have "unat d mod 4096 = 0" by (simp add: aligned_unat)
  then obtain q where q: "unat d = 4096 * q" by (auto simp: mod_eq_0_iff_dvd)
  have "unat d < 2 ^ 64" using unsigned_less[of d, where ?'a = nat] by simp
  with q have "q < 2 ^ 52" by simp
  with q show ?thesis by blast
qed

lemma aligned_diff: "page_aligned x \<Longrightarrow> page_aligned y \<Longrightarrow> page_aligned (y - x)"
proof -
  assume a: "page_aligned x" "page_aligned y"
  obtain q where q: "unat x = 4096 * q" "q < 2 ^ 52" using aligned_unat_mult[OF a(1)] by blast
  obtain r where r: "unat y = 4096 * r" "r < 2 ^ 52" using aligned_unat_mult[OF a(2)] by blast
  have "unat (y - x) = (if q \<le> r then 4096 * (r - q) else 4096 * (r + 2 ^ 52 - q))"
    using q r by (simp add: unat_sub_if_size word_size) arith
  then have "unat (y - x) mod 4096 = 0" by simp
  then show ?thesis by (simp add: aligned_unat)
qed

lemma far_apart:
  assumes "page_aligned d" "d \<noteq> 0" "k < 4096"
  shows "\<not> d + k < 4096"
proof -
  obtain q where q: "unat d = 4096 * q" "q < 2 ^ 52" using aligned_unat_mult[OF assms(1)] by blast
  have nz: "unat d \<noteq> 0" using assms(2) by (simp add: unat_eq_0)
  have k: "unat k < 4096" using assms(3) by (simp add: word_less_nat_alt)
  have "unat d + unat k < 2 ^ 64" using q k by simp
  then have "unat (d + k) = unat d + unat k"
    by (simp add: unat_add_lem[THEN iffD1])
  then show ?thesis using nz q by (simp add: word_less_nat_alt)
qed

lemma pages_disjoint:
  assumes "page_aligned x" "page_aligned y" "x \<noteq> y" "k < PGSIZE"
  shows "\<not> (y + k) - x < PGSIZE"
proof -
  have e: "(y + k) - x = (y - x) + k" by simp
  have "\<not> (y - x) + k < 4096"
    using assms by (intro far_apart aligned_diff) (simp_all add: PGSIZE_def)
  then show ?thesis unfolding e by (simp add: PGSIZE_def)
qed

lemma lt8_lt_page: "(k::64 word) < 8 \<Longrightarrow> k < PGSIZE"
  unfolding PGSIZE_def by (erule less_trans) simp

lemma read_next_outside:
  assumes "same_outside_page x m m'" "page_aligned x" "page_aligned y" "x \<noteq> y"
  shows "read_next m' y = read_next m y"
proof (rule read_next_cong)
  fix k :: "64 word" assume "k < 8"
  then have "k < PGSIZE" by (rule lt8_lt_page)
  then have "\<not> (y + k) - x < PGSIZE" using assms by (intro pages_disjoint)
  then show "m' (y + k) = m (y + k)" using assms(1) by (simp add: same_outside_page_def)
qed

lemma free_list_outside:
  assumes "same_outside_page x m m'" "page_aligned x"
  shows "list_all page_aligned xs \<Longrightarrow> x \<notin> set xs \<Longrightarrow> free_list m' p xs = free_list m p xs"
proof (induction xs arbitrary: p)
  case Nil
  then show ?case by simp
next
  case (Cons y ys)
  then have "read_next m' y = read_next m y"
    using assms by (intro read_next_outside) auto
  with Cons show ?case by simp
qed

lemma same_outside_memset: "same_outside_page x m (memset m x c PGSIZE)"
  by (simp add: same_outside_page_def memset_def)

lemma same_outside_memmove: "same_outside_page x m (memmove m x src PGSIZE)"
  by (simp add: same_outside_page_def memmove_def)

lemma same_outside_write_next: "same_outside_page x m (write_next m x v)"
proof -
  have "\<And>a. \<not> a - x < PGSIZE \<Longrightarrow> \<not> a - x < 8"
    using lt8_lt_page by blast
  then show ?thesis by (simp add: same_outside_page_def write_next_def)
qed

lemma same_outside_trans:
  "same_outside_page x m m1 \<Longrightarrow> same_outside_page x m1 m2 \<Longrightarrow> same_outside_page x m m2"
  by (simp add: same_outside_page_def)

lemma bytes_join:
  "ucast (byte_of v 0) OR push_bit 8 (ucast (byte_of v 1)) OR push_bit 16 (ucast (byte_of v 2))
     OR push_bit 24 (ucast (byte_of v 3)) OR push_bit 32 (ucast (byte_of v 4))
     OR push_bit 40 (ucast (byte_of v 5)) OR push_bit 48 (ucast (byte_of v 6))
     OR push_bit 56 (ucast (byte_of v 7)) = (v :: 64 word)"
proof (rule bit_word_eqI)
  fix n assume n: "n < LENGTH(64)"
  have b0: "bit (ucast (byte_of v 0) :: 64 word) n \<longleftrightarrow> n < 8 \<and> bit v n"
    using bit_byte_of[of 0 v n] by simp
  have b1: "bit (push_bit 8 (ucast (byte_of v 1) :: 64 word)) n \<longleftrightarrow> 8 \<le> n \<and> n < 16 \<and> bit v n"
    using bit_byte_of[of 1 v n] by simp
  have b2: "bit (push_bit 16 (ucast (byte_of v 2) :: 64 word)) n \<longleftrightarrow> 16 \<le> n \<and> n < 24 \<and> bit v n"
    using bit_byte_of[of 2 v n] by simp
  have b3: "bit (push_bit 24 (ucast (byte_of v 3) :: 64 word)) n \<longleftrightarrow> 24 \<le> n \<and> n < 32 \<and> bit v n"
    using bit_byte_of[of 3 v n] by simp
  have b4: "bit (push_bit 32 (ucast (byte_of v 4) :: 64 word)) n \<longleftrightarrow> 32 \<le> n \<and> n < 40 \<and> bit v n"
    using bit_byte_of[of 4 v n] by simp
  have b5: "bit (push_bit 40 (ucast (byte_of v 5) :: 64 word)) n \<longleftrightarrow> 40 \<le> n \<and> n < 48 \<and> bit v n"
    using bit_byte_of[of 5 v n] by simp
  have b6: "bit (push_bit 48 (ucast (byte_of v 6) :: 64 word)) n \<longleftrightarrow> 48 \<le> n \<and> n < 56 \<and> bit v n"
    using bit_byte_of[of 6 v n] by simp
  have b7: "bit (push_bit 56 (ucast (byte_of v 7) :: 64 word)) n \<longleftrightarrow> 56 \<le> n \<and> n < 64 \<and> bit v n"
    using bit_byte_of[of 7 v n] by simp
  have c: "n < 8 \<or> (8 \<le> n \<and> n < 16) \<or> (16 \<le> n \<and> n < 24) \<or> (24 \<le> n \<and> n < 32)
      \<or> (32 \<le> n \<and> n < 40) \<or> (40 \<le> n \<and> n < 48) \<or> (48 \<le> n \<and> n < 56) \<or> (56 \<le> n \<and> n < 64)"
    using n by simp arith
  show "bit (ucast (byte_of v 0) OR push_bit 8 (ucast (byte_of v 1)) OR push_bit 16 (ucast (byte_of v 2))
     OR push_bit 24 (ucast (byte_of v 3)) OR push_bit 32 (ucast (byte_of v 4))
     OR push_bit 40 (ucast (byte_of v 5)) OR push_bit 48 (ucast (byte_of v 6))
     OR push_bit 56 (ucast (byte_of v 7)) :: 64 word) n = bit v n"
    unfolding bit_or_iff b0 b1 b2 b3 b4 b5 b6 b7 using c n by auto
qed

lemma read_write_next: "read_next (write_next m p v) p = v"
  unfolding read_next_def using bytes_join[of v]
  by (simp add: write_next_def)

lemma kfree_count_only:
  assumes "pa mod PGSIZE = 0" "kend M \<le> pa" "pa < PHYSTOP M"
    and "0 < sint (page_ref_list s (PA2PGREF_ID M pa) - 1)"
  shows "kfree M pa s =
    Inr (s\<lparr>page_ref_list :=
            (page_ref_list s)(PA2PGREF_ID M pa := page_ref_list s (PA2PGREF_ID M pa) - 1)\<rparr>)"
  using assms by (auto simp add: kfree_def Let_def)

lemma kfree_push:
  assumes "pa mod PGSIZE = 0" "kend M \<le> pa" "pa < PHYSTOP M"
    and "sint (page_ref_list s (PA2PGREF_ID M pa) - 1) \<le> 0"
  shows "kfree M pa s =
    Inr (s\<lparr>page_ref_list :=
              (page_ref_list s)(PA2PGREF_ID M pa := page_ref_list s (PA2PGREF_ID M pa) - 1),
           mem := write_next (memset (mem s) pa 1 PGSIZE) pa (freelist s),
           freelist := pa\<rparr>)"
  using assms by (auto simp add: kfree_def Let_def)

lemma push_free_frames:
  assumes f: "free_frames s xs" and pa: "page_aligned pa" "pa \<noteq> 0" "pa \<notin> set xs"
    and s': "mem s' = write_next (memset (mem s) pa c PGSIZE) pa (freelist s)" "freelist s' = pa"
  shows "free_frames s' (pa # xs)"
proof -
  have o: "same_outside_page pa (mem s) (mem s')"
    unfolding s' by (rule same_outside_trans[OF same_outside_memset same_outside_write_next])
  have al: "list_all page_aligned xs" using f by (simp add: free_frames_def)
  have "free_list (mem s') (freelist s) xs = free_list (mem s) (freelist s) xs"
    by (rule free_list_outside[OF o pa(1) al pa(3)])
  moreover have "read_next (mem s') pa = freelist s"
    unfolding s' by (rule read_write_next)
  ultimately show ?thesis
    using f pa s' by (simp add: free_frames_def)
qed

lemma kalloc_empty: "freelist s = 0 \<Longrightarrow> kalloc M s = (0, s)"
  by (simp add: kalloc_def)

lemma kalloc_pop:
  "freelist s \<noteq> 0 \<Longrightarrow>
   kalloc M s =
     (freelist s,
      s\<lparr>freelist := read_next (mem s) (freelist s),
        mem := memset (mem s) (freelist s) 5 PGSIZE,
        page_ref_list := (page_ref_list s)(PA2PGREF_ID M (freelist s) := 1)\<rparr>)"
  by (simp add: kalloc_def Let_def)

lemma pop_free_frames:
  assumes f: "free_frames s (x # xs)"
    and o: "same_outside_page x (mem s) (mem s')" and h: "freelist s' = read_next (mem s) x"
  shows "free_frames s' xs"
proof -
  from f have fl: "free_list (mem s) (read_next (mem s) x) xs"
    and d: "x \<notin> set xs" and al: "list_all page_aligned xs" and ax: "page_aligned x"
    by (simp_all add: free_frames_def)
  have "free_list (mem s') (read_next (mem s) x) xs = free_list (mem s) (read_next (mem s) x) xs"
    by (rule free_list_outside[OF o ax al d])
  then show ?thesis using fl f h by (simp add: free_frames_def)
qed

lemma kalloc_free_frames:
  assumes f: "free_frames s (x # xs)"
  shows "fst (kalloc M s) = x \<and> free_frames (snd (kalloc M s)) xs"
proof -
  from f have h: "freelist s = x" "x \<noteq> 0" by (simp_all add: free_frames_def)
  have "free_frames (snd (kalloc M s)) xs"
    by (rule pop_free_frames[OF f]) (simp_all add: kalloc_pop h same_outside_memset)
  then show ?thesis by (simp add: kalloc_pop h)
qed

lemma free_frames_Nil: "free_frames s [] \<longleftrightarrow> freelist s = 0"
  by (simp add: free_frames_def)

lemma kalloc_times_frames:
  "free_frames s xs \<Longrightarrow> fst (kalloc_times M (Suc (length xs)) s) = xs @ [0]"
proof (induction xs arbitrary: s)
  case Nil
  then show ?case by (simp add: free_frames_Nil kalloc_empty)
next
  case (Cons x xs)
  from kalloc_free_frames[OF Cons.prems, of M]
  have r: "fst (kalloc M s) = x" and f: "free_frames (snd (kalloc M s)) xs" by simp_all
  from Cons.IH[OF f] have "fst (kalloc_times M (Suc (length xs)) (snd (kalloc M s))) = xs @ [0]" .
  with r show ?case
    by (simp add: case_prod_unfold Let_def del: kalloc_times.simps(2))
       (simp add: case_prod_unfold Let_def)
qed

subsection \<open>Rounding and the reference-table index\<close>

lemma and_not_4095: "unat ((a :: 64 word) AND - 4096) = unat a - unat a mod 4096"
proof -
  have m: "(- 4096 :: 64 word) = NOT (mask 12)" by (simp add: mask_eq_exp_minus_1)
  have "a AND - 4096 = push_bit 12 (drop_bit 12 a)"
    unfolding m by (rule bit_word_eqI) (auto simp add: bit_simps)
  moreover have "push_bit 12 (drop_bit 12 a) + take_bit 12 a = a" by (rule bits_ident)
  ultimately have e: "a AND - 4096 = a - take_bit 12 a"
    by (metis add_diff_cancel_right')
  have t: "take_bit 12 a = a mod 4096" by (simp add: take_bit_eq_mod)
  have "unat (a mod 4096) \<le> unat a" by (simp add: unat_mod)
  then have "a mod 4096 \<le> a" by (simp add: word_le_nat_alt)
  then have "unat (a - a mod 4096) = unat a - unat (a mod 4096)" by (rule unat_sub)
  then show ?thesis by (simp add: e t unat_mod)
qed

lemma PGROUNDDOWN_unat: "unat (PGROUNDDOWN a) = unat a - unat a mod 4096"
  by (simp add: PGROUNDDOWN_def PGSIZE_def and_not_4095)

lemma PGROUNDUP_unat:
  assumes "unat x + 4095 < 2 ^ 64"
  shows "unat (PGROUNDUP x) = (unat x + 4095) - (unat x + 4095) mod 4096"
proof -
  have "unat (4095 + x) = unat x + 4095"
    using assms by (simp add: unat_add_lem[THEN iffD1])
  then show ?thesis by (simp add: PGROUNDUP_def PGSIZE_def and_not_4095)
qed

lemma PGROUNDUP_props:
  assumes "unat x + 4095 < 2 ^ 64"
  shows "page_aligned (PGROUNDUP x)" "x \<le> PGROUNDUP x" "unat (PGROUNDUP x) < unat x + 4096"
proof -
  let ?n = "unat x + 4095"
  have u: "unat (PGROUNDUP x) = ?n - ?n mod 4096" by (rule PGROUNDUP_unat[OF assms])
  have "(?n - ?n mod 4096) mod 4096 = 0" by (simp add: minus_mod_eq_div_mult)
  then show "page_aligned (PGROUNDUP x)" by (simp add: aligned_unat u)
  have "?n mod 4096 < 4096" by simp
  then have "unat x \<le> ?n - ?n mod 4096" by arith
  then show "x \<le> PGROUNDUP x" by (simp add: word_le_nat_alt u)
  show "unat (PGROUNDUP x) < unat x + 4096" unfolding u by simp
qed

lemma PA2PGREF_ID_inj:
  assumes "page_aligned x" "page_aligned y" "PA2PGREF_ID M x = PA2PGREF_ID M y"
  shows "x = y"
proof -
  let ?a = "x - KERNBASE M" and ?b = "y - KERNBASE M"
  have q: "?a div 4096 = ?b div 4096" using assms(3) by (simp add: PA2PGREF_ID_def PGSIZE_def)
  have a: "?a = ?a div 4096 * 4096 + ?a mod 4096" by (rule div_mult_mod_eq[symmetric])
  have b: "?b = ?b div 4096 * 4096 + ?b mod 4096" by (rule div_mult_mod_eq[symmetric])
  have "?a - ?b = ?a mod 4096 - ?b mod 4096"
    by (subst a, subst b, simp add: q)
  moreover have "?a - ?b = x - y" by simp
  ultimately have d: "page_aligned (?a mod 4096 - ?b mod 4096)"
    using aligned_diff[OF assms(2) assms(1)] by simp
  have lt: "?a mod 4096 < 4096" "?b mod 4096 < 4096" by (simp_all add: word_mod_less_divisor)
  have "?a mod 4096 - ?b mod 4096 = 0"
  proof (rule ccontr)
    assume nz: "?a mod 4096 - ?b mod 4096 \<noteq> 0"
    from far_apart[OF d nz lt(2)] lt(1) show False by simp
  qed
  then have "?a = ?b" using a b q by simp
  then show ?thesis by simp
qed

subsection \<open>Boot\<close>

lemma init_refs_upd:
  "i < n \<Longrightarrow> n \<le> 2 ^ 64 \<Longrightarrow> init_refs n c (of_nat i) = 1"
proof (induction n)
  case 0
  then show ?case by simp
next
  case (Suc n)
  show ?case
  proof (cases "i = n")
    case True
    then show ?thesis by simp
  next
    case False
    with Suc.prems have "i < n" "n \<le> 2 ^ 64" by simp_all
    with Suc.IH show ?thesis by simp
  qed
qed

lemma init_refs_01:
  "(\<forall>i. c i = 0 \<or> c i = 1) \<Longrightarrow> init_refs n c i = 0 \<or> init_refs n c i = 1"
  by (induction n) auto

lemma init_refs_frame:
  assumes k: "KERNBASE M \<le> q" and q: "unat q + 4096 \<le> unat (PHYSTOP M)"
  shows "init_refs (unat (PGREF_MAX_ENTRIES M)) c (PA2PGREF_ID M q) = 1"
proof -
  have kq: "unat (KERNBASE M) \<le> unat q" using k by (simp add: word_le_nat_alt)
  then have kp: "KERNBASE M \<le> PHYSTOP M" using q by (simp add: word_le_nat_alt)
  have a: "unat (PA2PGREF_ID M q) = (unat q - unat (KERNBASE M)) div 4096"
    by (simp add: PA2PGREF_ID_def PGSIZE_def unat_div unat_sub[OF k])
  have b: "unat (PGREF_MAX_ENTRIES M) = (unat (PHYSTOP M) - unat (KERNBASE M)) div 4096"
    by (simp add: PGREF_MAX_ENTRIES_def PA2PGREF_ID_def PGSIZE_def unat_div unat_sub[OF kp])
  have "(unat q - unat (KERNBASE M)) + 4096 \<le> unat (PHYSTOP M) - unat (KERNBASE M)"
    using kq q by simp
  then have "(unat q - unat (KERNBASE M)) div 4096 + 1 \<le> (unat (PHYSTOP M) - unat (KERNBASE M)) div 4096"
    by (metis div_add_self2 div_le_mono zero_neq_numeral)
  then have lt: "unat (PA2PGREF_ID M q) < unat (PGREF_MAX_ENTRIES M)"
    by (simp add: a b)
  have le: "unat (PGREF_MAX_ENTRIES M) \<le> 2 ^ 64"
    using unsigned_less[of "PGREF_MAX_ENTRIES M", where ?'a = nat] by simp
  from init_refs_upd[OF lt le, of c] show ?thesis by simp
qed

lemma freerange_loop_frames:
  assumes lay: "0 < kend M" "unat (PHYSTOP M) + 2 * 4096 < 2 ^ 64"
  shows "n = (unat (PHYSTOP M) - unat p) div 4096 \<Longrightarrow> page_aligned p \<Longrightarrow> kend M \<le> p \<Longrightarrow>
    unat p < unat (PHYSTOP M) + 4096 \<Longrightarrow> free_frames s xs \<Longrightarrow> (\<forall>x\<in>set xs. x < p) \<Longrightarrow>
    (\<forall>q. page_aligned q \<and> p \<le> q \<and> unat q + 4096 \<le> unat (PHYSTOP M)
        \<longrightarrow> page_ref_list s (PA2PGREF_ID M q) = 1) \<Longrightarrow>
    (\<forall>i. page_ref_list s i = 0 \<or> page_ref_list s i = 1) \<Longrightarrow>
    \<exists>s' xs'. freerange_loop M p (PHYSTOP M) s = Some (Inr s') \<and> free_frames s' xs' \<and>
       length xs' = n + length xs \<and> (\<forall>i. page_ref_list s' i = 0 \<or> page_ref_list s' i = 1)"
proof (induction n arbitrary: p s xs)
  case 0
  have u: "unat (p + 4096) = unat p + 4096"
    using 0(4) lay(2) by (simp add: unat_add_lem[THEN iffD1])
  have "unat (PHYSTOP M) - unat p < 4096" using 0(1) by (simp add: div_eq_0_iff)
  then have "\<not> p + PGSIZE \<le> PHYSTOP M"
    by (simp add: PGSIZE_def word_le_nat_alt u)
  then have "freerange_loop M p (PHYSTOP M) s = Some (Inr s)"
    by (subst freerange_loop.simps) simp
  with 0 show ?case by auto
next
  case (Suc n)
  let ?i = "PA2PGREF_ID M p"
  have "(unat (PHYSTOP M) - unat p) div 4096 \<noteq> 0" using Suc.prems(1) by simp
  then have ge: "4096 \<le> unat (PHYSTOP M) - unat p" by (simp add: div_eq_0_iff)
  then have fit: "unat p + 4096 \<le> unat (PHYSTOP M)" by simp
  have u: "unat (p + 4096) = unat p + 4096"
    using fit lay(2) by (simp add: unat_add_lem[THEN iffD1])
  have le: "p + PGSIZE \<le> PHYSTOP M" by (simp add: PGSIZE_def word_le_nat_alt u fit)
  have lt: "p < PHYSTOP M" using fit by (simp add: word_less_nat_alt)
  have al: "p mod PGSIZE = 0" using Suc.prems(2) by (simp add: page_aligned_def)
  have c1: "page_ref_list s ?i = 1" using Suc.prems(2,7) fit by auto
  define s1 where "s1 = s\<lparr>page_ref_list := (page_ref_list s)(?i := page_ref_list s ?i - 1),
           mem := write_next (memset (mem s) p 1 PGSIZE) p (freelist s),
           freelist := p\<rparr>"
  have kf: "kfree M p s = Inr s1"
    unfolding s1_def by (rule kfree_push[OF al Suc.prems(3) lt]) (simp add: c1)
  have pnz: "p \<noteq> 0" using Suc.prems(3) lay(1) by auto
  have pnot: "p \<notin> set xs" using Suc.prems(6) by auto
  have ff: "free_frames s1 (p # xs)"
    by (rule push_free_frames[OF Suc.prems(5,2) pnz pnot]) (simp_all add: s1_def)
  have a': "page_aligned (p + 4096)"
    using Suc.prems(2) by (simp add: aligned_unat u)
  have plt: "p < p + 4096" by (simp add: word_less_nat_alt u)
  have k': "kend M \<le> p + 4096" using Suc.prems(3) plt by (meson order_trans less_imp_le)
  have "(unat (PHYSTOP M) - unat p) div 4096 = Suc ((unat (PHYSTOP M) - unat p - 4096) div 4096)"
    using ge by (simp add: le_div_geq)
  then have n': "n = (unat (PHYSTOP M) - unat (p + 4096)) div 4096"
    using Suc.prems(1) by (simp add: u)
  have b': "unat (p + 4096) < unat (PHYSTOP M) + 4096" using fit by (simp add: u)
  have x': "\<forall>x\<in>set (p # xs). x < p + 4096" using Suc.prems(6) plt by (auto intro: less_trans)
  have r': "\<forall>q. page_aligned q \<and> p + 4096 \<le> q \<and> unat q + 4096 \<le> unat (PHYSTOP M)
        \<longrightarrow> page_ref_list s1 (PA2PGREF_ID M q) = 1"
  proof (intro allI impI)
    fix q assume q: "page_aligned q \<and> p + 4096 \<le> q \<and> unat q + 4096 \<le> unat (PHYSTOP M)"
    then have "p < q" using plt by (meson less_le_trans)
    then have "q \<noteq> p" by simp
    then have "PA2PGREF_ID M q \<noteq> ?i" using PA2PGREF_ID_inj[of q p M] q Suc.prems(2) by blast
    moreover have "page_ref_list s (PA2PGREF_ID M q) = 1" using q Suc.prems(7) \<open>p < q\<close> by simp
    ultimately show "page_ref_list s1 (PA2PGREF_ID M q) = 1" by (simp add: s1_def)
  qed
  have z': "\<forall>i. page_ref_list s1 i = 0 \<or> page_ref_list s1 i = 1"
    using Suc.prems(8) c1 by (simp add: s1_def)
  from Suc.IH[OF n' a' k' b' ff x' r' z']
  obtain s' xs' where r: "freerange_loop M (p + 4096) (PHYSTOP M) s1 = Some (Inr s')"
      "free_frames s' xs'" "length xs' = n + length (p # xs)"
      "\<forall>i. page_ref_list s' i = 0 \<or> page_ref_list s' i = 1" by blast
  have "freerange_loop M p (PHYSTOP M) s = Some (Inr s')"
    using le r(1) by (subst freerange_loop.simps) (simp add: kf PGSIZE_def)
  with r show ?case by auto
qed

lemma kinit_frames:
  assumes "valid_layout M"
  shows "\<exists>s xs. kinit M (boot_state m) = Some (Inr s) \<and> free_frames s xs \<and>
     length xs = nframes M \<and> (\<forall>i. page_ref_list s i = 0 \<or> page_ref_list s i = 1)"
proof -
  from assms have lay: "0 < KERNBASE M" "KERNBASE M \<le> kend M" "kend M \<le> PHYSTOP M"
      "unat (PHYSTOP M) + 2 * 4096 < 2 ^ 64"
    by (simp_all add: valid_layout_def)
  let ?p = "PGROUNDUP (kend M)"
  let ?s = "(boot_state m)\<lparr>page_ref_list := init_refs (unat (PGREF_MAX_ENTRIES M)) (page_ref_list (boot_state m))\<rparr>"
  have ke: "unat (kend M) \<le> unat (PHYSTOP M)" using lay(3) by (simp add: word_le_nat_alt)
  then have no: "unat (kend M) + 4095 < 2 ^ 64" using lay(4) by simp
  note ru = PGROUNDUP_props[OF no]
  have k0: "0 < kend M" using lay(1,2) by simp
  have b: "unat ?p < unat (PHYSTOP M) + 4096" using ru(3) ke by simp
  have ff: "free_frames ?s []" by (simp add: free_frames_def boot_state_def)
  have r: "\<forall>q. page_aligned q \<and> ?p \<le> q \<and> unat q + 4096 \<le> unat (PHYSTOP M)
        \<longrightarrow> page_ref_list ?s (PA2PGREF_ID M q) = 1"
  proof (intro allI impI)
    fix q assume q: "page_aligned q \<and> ?p \<le> q \<and> unat q + 4096 \<le> unat (PHYSTOP M)"
    then have "KERNBASE M \<le> q" using lay(2) ru(2) by (meson order_trans)
    then show "page_ref_list ?s (PA2PGREF_ID M q) = 1"
      using q by (simp add: init_refs_frame)
  qed
  have z: "\<forall>i. page_ref_list ?s i = 0 \<or> page_ref_list ?s i = 1"
    using init_refs_01[of "\<lambda>i. 0"] by (simp add: boot_state_def)
  from freerange_loop_frames[OF k0 lay(4) refl ru(1,2) b ff _ r z, of ]
  show ?thesis by (simp add: kinit_def freerange_def nframes_def)
qed

subsection \<open>kfree\<close>

text \<open>
  Claim C1. \<open>kfree(pa)\<close> panics exactly when \<open>pa\<close> is not page-aligned, lies below \<open>end\<close>
  or lies at or above \<open>PHYSTOP\<close>. For every other \<open>pa\<close> it decrements the reference count
  of the frame; when the result is positive it returns with nothing else changed (the
  free list and every byte of memory are as before); when the result is zero or negative
  it fills the whole page with the byte 1 and then links the frame in at the head of the
  free list: \<open>kmem.freelist\<close> is \<open>pa\<close>, the \<open>next\<close> pointer stored in the page is the old
  head, and a free list of frames \<open>xs\<close> becomes \<open>pa # xs\<close>.
\<close>

theorem kfree_spec:
  "(kfree M pa s = Inl (Panic ''kfree'') \<longleftrightarrow>
      pa mod PGSIZE \<noteq> 0 \<or> pa < kend M \<or> PHYSTOP M \<le> pa) \<and>
   (pa mod PGSIZE = 0 \<and> kend M \<le> pa \<and> pa < PHYSTOP M \<longrightarrow>
      (let i = PA2PGREF_ID M pa;
           refs = (page_ref_list s)(i := page_ref_list s i - 1);
           s' = s\<lparr>page_ref_list := refs,
                  mem := write_next (memset (mem s) pa 1 PGSIZE) pa (freelist s),
                  freelist := pa\<rparr>
       in (0 < sint (refs i) \<longrightarrow> kfree M pa s = Inr (s\<lparr>page_ref_list := refs\<rparr>)) \<and>
          (sint (refs i) \<le> 0 \<longrightarrow>
             kfree M pa s = Inr s' \<and>
             (\<forall>a. a - pa < PGSIZE \<longrightarrow> memset (mem s) pa 1 PGSIZE a = 1) \<and>
             read_next (mem s') pa = freelist s \<and>
             (\<forall>xs. free_frames s xs \<and> pa \<notin> set xs \<and> pa \<noteq> 0 \<longrightarrow> free_frames s' (pa # xs)))))"
proof -
  have 1: "kfree M pa s = Inl (Panic ''kfree'') \<longleftrightarrow>
      pa mod PGSIZE \<noteq> 0 \<or> pa < kend M \<or> PHYSTOP M \<le> pa"
    by (auto simp add: kfree_def Let_def)
  have 2: "kfree M pa s = Inr (s\<lparr>page_ref_list := (page_ref_list s)(PA2PGREF_ID M pa := page_ref_list s (PA2PGREF_ID M pa) - 1)\<rparr>)"
    if "pa mod PGSIZE = 0" "kend M \<le> pa" "pa < PHYSTOP M"
       "0 < sint (page_ref_list s (PA2PGREF_ID M pa) - 1)"
    using that by (rule kfree_count_only)
  have 3: "kfree M pa s = Inr (s\<lparr>page_ref_list := (page_ref_list s)(PA2PGREF_ID M pa := page_ref_list s (PA2PGREF_ID M pa) - 1),
           mem := write_next (memset (mem s) pa 1 PGSIZE) pa (freelist s),
           freelist := pa\<rparr>)"
    if "pa mod PGSIZE = 0" "kend M \<le> pa" "pa < PHYSTOP M"
       "sint (page_ref_list s (PA2PGREF_ID M pa) - 1) \<le> 0"
    using that by (rule kfree_push)
  have 4: "\<forall>a. a - pa < PGSIZE \<longrightarrow> memset (mem s) pa 1 PGSIZE a = 1"
    by (simp add: memset_def)
  have 5: "free_frames (s\<lparr>page_ref_list := r,
           mem := write_next (memset (mem s) pa 1 PGSIZE) pa (freelist s),
           freelist := pa\<rparr>) (pa # xs)"
    if "pa mod PGSIZE = 0" "free_frames s xs" "pa \<notin> set xs" "pa \<noteq> 0" for xs r
    using that by (intro push_free_frames[of s xs pa _ 1]) (simp_all add: page_aligned_def)
  show ?thesis
    using 1 2 3 4 5 by (simp add: Let_def read_write_next)
qed

theorem kfree_spec_witness:
  "kfree tiny 0x80001000 (all_refs 2) =
     Inr ((all_refs 2)\<lparr>page_ref_list := (page_ref_list (all_refs 2))(1 := 1)\<rparr>) \<and>
   kfree tiny 0x80001000 (all_refs 1) =
     Inr ((all_refs 1)\<lparr>page_ref_list := (page_ref_list (all_refs 1))(1 := 0),
          mem := write_next (memset (mem (all_refs 1)) 0x80001000 1 PGSIZE) 0x80001000 0,
          freelist := 0x80001000\<rparr>) \<and>
   free_frames (all_refs 1\<lparr>page_ref_list := (page_ref_list (all_refs 1))(1 := 0),
          mem := write_next (memset (mem (all_refs 1)) 0x80001000 1 PGSIZE) 0x80001000 0,
          freelist := 0x80001000\<rparr>) [0x80001000]"
proof -
  have v: "(0x80001000 :: 64 word) mod PGSIZE = 0 \<and> kend tiny \<le> 0x80001000 \<and> 0x80001000 < PHYSTOP tiny"
    by (simp add: PGSIZE_def tiny_def)
  have i: "PA2PGREF_ID tiny 0x80001000 = 1"
    by (simp add: PA2PGREF_ID_def PGSIZE_def tiny_def)
  have f: "free_frames (all_refs 1) []" by (simp add: free_frames_def all_refs_def)
  from kfree_spec[of tiny "0x80001000" "all_refs 2"] v
  have a: "kfree tiny 0x80001000 (all_refs 2) =
     Inr ((all_refs 2)\<lparr>page_ref_list := (page_ref_list (all_refs 2))(1 := 1)\<rparr>)"
    by (simp add: i Let_def all_refs_def)
  from kfree_spec[of tiny "0x80001000" "all_refs 1"] v f
  show ?thesis
    by (simp add: a i Let_def) (simp add: all_refs_def)
qed

subsection \<open>kalloc\<close>

lemma tiny_simps:
  "KERNBASE tiny = 0x80000000" "PHYSTOP tiny = 0x80003000" "kend tiny = 0x80000800"
  by (simp_all add: tiny_def)

lemma tiny_max: "unat (PGREF_MAX_ENTRIES tiny) = Suc (Suc (Suc 0))"
  by (simp add: PGREF_MAX_ENTRIES_def PA2PGREF_ID_def PGSIZE_def tiny_simps)

lemma tiny_ids: "PA2PGREF_ID tiny 0x80001000 = 1" "PA2PGREF_ID tiny 0x80002000 = 2"
  by (simp_all add: PA2PGREF_ID_def PGSIZE_def tiny_simps)

lemma tiny_roundup: "PGROUNDUP (kend tiny) = 0x80001000"
  by (simp add: PGROUNDUP_def PGSIZE_def tiny_simps)

lemma kfree_tiny1:
  "page_ref_list s 1 = 1 \<Longrightarrow> kfree tiny 0x80001000 s =
     Inr (s\<lparr>page_ref_list := (page_ref_list s)(1 := 0),
            mem := write_next (memset (mem s) 0x80001000 1 PGSIZE) 0x80001000 (freelist s),
            freelist := 0x80001000\<rparr>)"
  by (subst kfree_push) (simp_all add: tiny_simps tiny_ids PGSIZE_def)

lemma kfree_tiny2:
  "page_ref_list s 2 = 1 \<Longrightarrow> kfree tiny 0x80002000 s =
     Inr (s\<lparr>page_ref_list := (page_ref_list s)(2 := 0),
            mem := write_next (memset (mem s) 0x80002000 1 PGSIZE) 0x80002000 (freelist s),
            freelist := 0x80002000\<rparr>)"
  by (subst kfree_push) (simp_all add: tiny_simps tiny_ids PGSIZE_def)

lemma kinit_tiny:
  "kinit tiny (boot_state m) =
     Some (Inr \<lparr>mem = write_next (memset (write_next (memset m 0x80001000 1 PGSIZE) 0x80001000 0)
                        0x80002000 1 PGSIZE) 0x80002000 0x80001000,
               freelist = 0x80002000,
               page_ref_list = (\<lambda>i. 0)(0 := 1, 1 := 0, 2 := 0)\<rparr>)"
proof -
  let ?s0 = "\<lparr>mem = m, freelist = 0, page_ref_list = (\<lambda>i. 0)(0 := 1, 1 := 1, 2 := 1)\<rparr>"
  have a: "(boot_state m)\<lparr>page_ref_list := init_refs (unat (PGREF_MAX_ENTRIES tiny)) (page_ref_list (boot_state m))\<rparr> = ?s0"
    by (simp add: tiny_max boot_state_def)
  have l3: "freerange_loop tiny 0x80003000 0x80003000 s = Some (Inr s)" for s
    by (subst freerange_loop.simps) (simp add: PGSIZE_def)
  have l2: "freerange_loop tiny 0x80002000 0x80003000 s =
     Some (Inr (s\<lparr>page_ref_list := (page_ref_list s)(2 := 0),
            mem := write_next (memset (mem s) 0x80002000 1 PGSIZE) 0x80002000 (freelist s),
            freelist := 0x80002000\<rparr>))" if "page_ref_list s 2 = 1" for s
    by (subst freerange_loop.simps) (simp add: PGSIZE_def kfree_tiny2[OF that, unfolded PGSIZE_def] l3)
  have l1: "freerange_loop tiny 0x80001000 0x80003000 ?s0 = Some (Inr \<lparr>mem = write_next (memset (write_next (memset m 0x80001000 1 PGSIZE) 0x80001000 0)
                        0x80002000 1 PGSIZE) 0x80002000 0x80001000,
               freelist = 0x80002000,
               page_ref_list = (\<lambda>i. 0)(0 := 1, 1 := 0, 2 := 0)\<rparr>)"
    by (subst freerange_loop.simps) (simp add: PGSIZE_def kfree_tiny1[unfolded PGSIZE_def] l2)
  show ?thesis
    unfolding kinit_def freerange_def a tiny_roundup using l1 by (simp add: tiny_simps)
qed


lemma free_frames_nonzero: "free_frames s xs \<Longrightarrow> 0 \<notin> set xs"
proof -
  have "free_list m p xs \<Longrightarrow> 0 \<notin> set xs" for m p
    by (induction xs arbitrary: p) auto
  then show "free_frames s xs \<Longrightarrow> 0 \<notin> set xs" by (auto simp add: free_frames_def)
qed

text \<open>
  Claim C2. \<open>kalloc()\<close> returns the null pointer exactly when the free list is empty, and
  then changes nothing. Otherwise it returns the head frame, takes it off the list (the
  new head is the \<open>next\<close> pointer stored in the frame), fills its 4096 bytes with the byte
  5 and sets its reference count to 1; the state it leaves differs from the old one in
  nothing else. On a free list of frames \<open>x # xs\<close> it returns \<open>x\<close> and leaves the list \<open>xs\<close>;
  on a free list of frames \<open>xs\<close>, \<open>length xs + 1\<close> calls in a row return the frames of \<open>xs\<close>,
  none of them null, and then the null pointer. \<open>kinit\<close> on a valid layout ends with a free
  list of \<open>nframes M\<close> frames, so the call number \<open>nframes M + 1\<close> after boot is the first
  to return null.
\<close>

theorem kalloc_spec:
  "(fst (kalloc M s) = 0 \<longleftrightarrow> freelist s = 0) \<and>
   (freelist s = 0 \<longrightarrow> kalloc M s = (0, s)) \<and>
   (freelist s \<noteq> 0 \<longrightarrow>
      kalloc M s =
        (freelist s,
         s\<lparr>freelist := read_next (mem s) (freelist s),
           mem := memset (mem s) (freelist s) 5 PGSIZE,
           page_ref_list := (page_ref_list s)(PA2PGREF_ID M (freelist s) := 1)\<rparr>) \<and>
      (\<forall>a. a - freelist s < 4096 \<longrightarrow> mem (snd (kalloc M s)) a = 5) \<and>
      page_ref_list (snd (kalloc M s)) (PA2PGREF_ID M (freelist s)) = 1) \<and>
   (\<forall>x xs. free_frames s (x # xs) \<longrightarrow>
      fst (kalloc M s) = x \<and> free_frames (snd (kalloc M s)) xs) \<and>
   (\<forall>xs. free_frames s xs \<longrightarrow>
      0 \<notin> set xs \<and> fst (kalloc_times M (length xs + 1) s) = xs @ [0]) \<and>
   (valid_layout M \<longrightarrow>
      (\<exists>s0 xs. kinit M (boot_state m) = Some (Inr s0) \<and> free_frames s0 xs \<and>
         length xs = nframes M \<and> 0 \<notin> set xs \<and>
         fst (kalloc_times M (nframes M + 1) s0) = xs @ [0]))"
proof -
  have 1: "fst (kalloc M s) = 0 \<longleftrightarrow> freelist s = 0"
    by (simp add: kalloc_def Let_def)
  have 2: "freelist s = 0 \<longrightarrow> kalloc M s = (0, s)"
    by (simp add: kalloc_empty)
  have 3: "freelist s \<noteq> 0 \<longrightarrow>
      kalloc M s =
        (freelist s,
         s\<lparr>freelist := read_next (mem s) (freelist s),
           mem := memset (mem s) (freelist s) 5 PGSIZE,
           page_ref_list := (page_ref_list s)(PA2PGREF_ID M (freelist s) := 1)\<rparr>) \<and>
      (\<forall>a. a - freelist s < 4096 \<longrightarrow> mem (snd (kalloc M s)) a = 5) \<and>
      page_ref_list (snd (kalloc M s)) (PA2PGREF_ID M (freelist s)) = 1"
    by (simp add: kalloc_pop memset_def PGSIZE_def)
  have 4: "\<forall>x xs. free_frames s (x # xs) \<longrightarrow>
      fst (kalloc M s) = x \<and> free_frames (snd (kalloc M s)) xs"
    using kalloc_free_frames by blast
  have 5: "\<forall>xs. free_frames s xs \<longrightarrow>
      0 \<notin> set xs \<and> fst (kalloc_times M (length xs + 1) s) = xs @ [0]"
    using kalloc_times_frames[of s _ M] free_frames_nonzero[of s] by simp
  have 6: "\<exists>s0 xs. kinit M (boot_state m) = Some (Inr s0) \<and> free_frames s0 xs \<and>
         length xs = nframes M \<and> 0 \<notin> set xs \<and>
         fst (kalloc_times M (nframes M + 1) s0) = xs @ [0]" if v: "valid_layout M"
  proof -
    from kinit_frames[OF v, of m] obtain s0 xs where
      k: "kinit M (boot_state m) = Some (Inr s0)" "free_frames s0 xs" "length xs = nframes M"
      by blast
    from kalloc_times_frames[OF k(2), of M] k(3)
    have "fst (kalloc_times M (nframes M + 1) s0) = xs @ [0]" by simp
    with k free_frames_nonzero[OF k(2)] show ?thesis by blast
  qed
  from 1 2 3 4 5 6 show ?thesis by blast
qed

lemma nframes_tiny: "nframes tiny = 2"
  unfolding nframes_def tiny_roundup by (simp add: tiny_simps)

lemma valid_tiny: "valid_layout tiny"
  by (simp add: valid_layout_def tiny_max tiny_simps)

theorem kalloc_spec_witness:
  "valid_layout tiny \<and> nframes tiny = 2 \<and>
   (\<exists>s0 x y. kinit tiny (boot_state (\<lambda>a. 0)) = Some (Inr s0) \<and> free_frames s0 [x, y] \<and>
      x \<noteq> 0 \<and> y \<noteq> 0 \<and> fst (kalloc_times tiny 3 s0) = [x, y, 0])"
proof -
  from kalloc_spec[of tiny _ "\<lambda>a. 0"] valid_tiny
  obtain s0 xs where k: "kinit tiny (boot_state (\<lambda>a. 0)) = Some (Inr s0)" "free_frames s0 xs"
      "length xs = nframes tiny" "0 \<notin> set xs"
      "fst (kalloc_times tiny (nframes tiny + 1) s0) = xs @ [0]"
    by blast
  from k(3) obtain x y where xs: "xs = [x, y]"
    by (auto simp add: nframes_tiny length_Suc_conv numeral_2_eq_2)
  from k xs have "kinit tiny (boot_state (\<lambda>a. 0)) = Some (Inr s0) \<and> free_frames s0 [x, y] \<and>
      x \<noteq> 0 \<and> y \<noteq> 0 \<and> fst (kalloc_times tiny 3 s0) = [x, y, 0]"
    by (auto simp add: nframes_tiny)
  then show ?thesis using valid_tiny nframes_tiny by blast
qed

subsection \<open>krefpage and kfree\<close>

lemma sint_of_nat_small:
  assumes "n < 2 ^ 31"
  shows "sint (of_nat n :: 32 word) = int n"
proof -
  have "(of_nat n :: 32 word) = word_of_int (int n)" by simp
  then have "sint (of_nat n :: 32 word) = (int n + 2 ^ 31) mod 2 ^ 32 - 2 ^ 31"
    by (simp only: int_word_sint) simp
  moreover have "(int n + 2 ^ 31) mod 2 ^ 32 = int n + 2 ^ 31"
    using assms by (intro mod_pos_pos_trivial) simp_all
  ultimately show ?thesis by simp
qed

lemma krefpage_ok:
  assumes "pa mod PGSIZE = 0" "kend M \<le> pa" "pa < PHYSTOP M"
  shows "krefpage M pa s =
    (1, s\<lparr>page_ref_list :=
            (page_ref_list s)(PA2PGREF_ID M pa := page_ref_list s (PA2PGREF_ID M pa) + 1)\<rparr>)"
  using assms by (auto simp add: krefpage_def Let_def)

lemma krefpage_times_ok:
  assumes v: "pa mod PGSIZE = 0" "kend M \<le> pa" "pa < PHYSTOP M"
  shows "krefpage_times M k pa s =
    (replicate k 1,
     s\<lparr>page_ref_list :=
         (page_ref_list s)(PA2PGREF_ID M pa := page_ref_list s (PA2PGREF_ID M pa) + of_nat k)\<rparr>)"
proof (induction k arbitrary: s)
  case 0
  then show ?case by simp
next
  case (Suc k)
  show ?case
    by (simp add: krefpage_ok[OF v] Suc.IH add.assoc cong: if_cong)
qed

lemma kfree_times_count_only:
  assumes v: "pa mod PGSIZE = 0" "kend M \<le> pa" "pa < PHYSTOP M"
  shows "(\<forall>i. 1 \<le> i \<and> i \<le> j \<longrightarrow> 0 < sint (page_ref_list s (PA2PGREF_ID M pa) - of_nat i)) \<Longrightarrow>
    kfree_times M j pa s =
      Inr (s\<lparr>page_ref_list :=
             (page_ref_list s)(PA2PGREF_ID M pa := page_ref_list s (PA2PGREF_ID M pa) - of_nat j)\<rparr>)"
proof (induction j arbitrary: s)
  case 0
  then show ?case by simp
next
  case (Suc j)
  let ?i = "PA2PGREF_ID M pa"
  let ?s1 = "s\<lparr>page_ref_list := (page_ref_list s)(?i := page_ref_list s ?i - 1)\<rparr>"
  from Suc.prems have "0 < sint (page_ref_list s ?i - of_nat 1)" by (metis le_add1 order_refl plus_1_eq_Suc)
  then have k: "kfree M pa s = Inr ?s1"
    using kfree_count_only[OF v, of s] by simp
  have "\<forall>i. 1 \<le> i \<and> i \<le> j \<longrightarrow> 0 < sint (page_ref_list ?s1 ?i - of_nat i)"
  proof (intro allI impI)
    fix i assume "1 \<le> i \<and> i \<le> j"
    then have "0 < sint (page_ref_list s ?i - of_nat (Suc i))"
      using Suc.prems[rule_format, of "Suc i"] by simp
    then show "0 < sint (page_ref_list ?s1 ?i - of_nat i)" by (simp add: diff_diff_eq)
  qed
  from Suc.IH[OF this] show ?case
    by (simp add: k diff_diff_eq cong: if_cong)
qed

lemma kfree_times_add:
  "kfree_times M (m + n) pa s =
     (case kfree_times M m pa s of Inl e \<Rightarrow> Inl e | Inr s1 \<Rightarrow> kfree_times M n pa s1)"
proof (induction m arbitrary: s)
  case 0
  then show ?case by simp
next
  case (Suc m)
  show ?case
  proof (cases "kfree M pa s")
    case (Inl e)
    then show ?thesis by simp
  next
    case (Inr s1)
    then show ?thesis by (simp add: Suc.IH)
  qed
qed

lemma kfree_times_Suc_end:
  "kfree_times M (k + 1) pa s =
     (case kfree_times M k pa s of Inl e \<Rightarrow> Inl e | Inr s1 \<Rightarrow> kfree M pa s1)"
proof -
  have "kfree_times M 1 pa s1 = kfree M pa s1" for s1
    by (simp split: sum.splits)
  then show ?thesis by (simp only: kfree_times_add)
qed

text \<open>
  Claim C3, for \<open>k < 2 ^ 31\<close>. Let \<open>p\<close> be a frame that \<open>kfree\<close> and \<open>krefpage\<close> accept, with
  reference count 1. Then \<open>k\<close> calls of \<open>krefpage(p)\<close> all return 1 and leave the count
  \<open>1 + k\<close>; after them, \<open>j \<le> k\<close> calls of \<open>kfree(p)\<close> only bring the count down to
  \<open>1 + k - j\<close>, with the free list and memory as they were, and call number \<open>k + 1\<close>
  brings the count to 0 and puts the frame at the head of the free list. The count is a
  32-bit \<open>int\<close>: the bound on \<open>k\<close> keeps the counts that \<open>kfree\<close> tests in its range.
\<close>

theorem krefpage_kfree_balance:
  assumes v: "p mod PGSIZE = 0" "kend M \<le> p" "p < PHYSTOP M"
    and one: "page_ref_list s (PA2PGREF_ID M p) = 1"
    and k: "k < 2 ^ 31"
  shows
   "krefpage_times M k p s =
      (replicate k 1,
       s\<lparr>page_ref_list := (page_ref_list s)(PA2PGREF_ID M p := 1 + of_nat k)\<rparr>) \<and>
    (\<forall>j\<le>k. kfree_times M j p (snd (krefpage_times M k p s)) =
       Inr (s\<lparr>page_ref_list := (page_ref_list s)(PA2PGREF_ID M p := of_nat (1 + k - j))\<rparr>)) \<and>
    kfree_times M (k + 1) p (snd (krefpage_times M k p s)) =
       Inr (s\<lparr>page_ref_list := (page_ref_list s)(PA2PGREF_ID M p := 0),
              mem := write_next (memset (mem s) p 1 PGSIZE) p (freelist s),
              freelist := p\<rparr>) \<and>
    (\<forall>xs. free_frames s xs \<and> p \<notin> set xs \<and> p \<noteq> 0 \<longrightarrow>
       (\<forall>j\<le>k. free_frames
          (s\<lparr>page_ref_list := (page_ref_list s)(PA2PGREF_ID M p := of_nat (1 + k - j))\<rparr>) xs) \<and>
       free_frames
         (s\<lparr>page_ref_list := (page_ref_list s)(PA2PGREF_ID M p := 0),
            mem := write_next (memset (mem s) p 1 PGSIZE) p (freelist s),
            freelist := p\<rparr>) (p # xs))"
proof -
  let ?i = "PA2PGREF_ID M p"
  let ?s1 = "s\<lparr>page_ref_list := (page_ref_list s)(?i := 1 + of_nat k)\<rparr>"
  have a: "krefpage_times M k p s = (replicate k 1, ?s1)"
    by (simp add: krefpage_times_ok[OF v] one)
  have b: "kfree_times M j p ?s1 =
       Inr (s\<lparr>page_ref_list := (page_ref_list s)(?i := of_nat (1 + k - j))\<rparr>)" if j: "j \<le> k" for j
  proof -
    have "\<forall>i. 1 \<le> i \<and> i \<le> j \<longrightarrow> 0 < sint (page_ref_list ?s1 ?i - of_nat i)"
    proof (intro allI impI)
      fix i assume i: "1 \<le> i \<and> i \<le> j"
      define n where "n = 1 + k - i"
      have e: "(1 + of_nat k - of_nat i :: 32 word) = of_nat n" using i j by (simp add: n_def)
      have "n \<le> k" "0 < n" using i j by (auto simp add: n_def)
      then have n: "n < 2 ^ 31" "0 < n" using k by simp_all
      have "sint (of_nat n :: 32 word) = int n" by (rule sint_of_nat_small[OF n(1)])
      then have "0 < sint (of_nat n :: 32 word)" using n(2) by simp
      then show "0 < sint (page_ref_list ?s1 ?i - of_nat i)" by (simp add: e)
    qed
    from kfree_times_count_only[OF v this] j show ?thesis by simp
  qed
  have c: "kfree_times M (k + 1) p ?s1 =
       Inr (s\<lparr>page_ref_list := (page_ref_list s)(?i := 0),
              mem := write_next (memset (mem s) p 1 PGSIZE) p (freelist s),
              freelist := p\<rparr>)"
  proof -
    have "kfree M p (s\<lparr>page_ref_list := (page_ref_list s)(?i := 1)\<rparr>) =
       Inr (s\<lparr>page_ref_list := (page_ref_list s)(?i := 0),
              mem := write_next (memset (mem s) p 1 PGSIZE) p (freelist s),
              freelist := p\<rparr>)"
      using kfree_push[OF v, of "s\<lparr>page_ref_list := (page_ref_list s)(?i := 1)\<rparr>"] by simp
    then show ?thesis
      unfolding kfree_times_Suc_end by (simp add: b[of k])
  qed
  have d: "free_frames (s\<lparr>page_ref_list := r\<rparr>) xs" if "free_frames s xs" for r xs
    using that by (simp add: free_frames_def)
  have e: "free_frames
         (s\<lparr>page_ref_list := r,
            mem := write_next (memset (mem s) p 1 PGSIZE) p (freelist s),
            freelist := p\<rparr>) (p # xs)"
    if "free_frames s xs" "p \<notin> set xs" "p \<noteq> 0" for r xs
    using that v(1) by (intro push_free_frames[of s xs p _ 1]) (simp_all add: page_aligned_def)
  show ?thesis
    unfolding a using b c d e by simp
qed


lemma tiny_frame1:
  "(0x80001000 :: 64 word) mod PGSIZE = 0" "kend tiny \<le> 0x80001000" "0x80001000 < PHYSTOP tiny"
  by (simp_all add: PGSIZE_def tiny_simps)

theorem krefpage_kfree_balance_witness:
  "(2 :: nat) < 2 ^ 31 \<and>
   krefpage_times tiny 2 0x80001000 (all_refs 1) =
     ([1, 1], (all_refs 1)\<lparr>page_ref_list := (page_ref_list (all_refs 1))(1 := 3)\<rparr>) \<and>
   kfree_times tiny 2 0x80001000 (snd (krefpage_times tiny 2 0x80001000 (all_refs 1))) =
     Inr ((all_refs 1)\<lparr>page_ref_list := (page_ref_list (all_refs 1))(1 := 1)\<rparr>) \<and>
   kfree_times tiny 3 0x80001000 (snd (krefpage_times tiny 2 0x80001000 (all_refs 1))) =
     Inr ((all_refs 1)\<lparr>page_ref_list := (page_ref_list (all_refs 1))(1 := 0),
            mem := write_next (memset (mem (all_refs 1)) 0x80001000 1 PGSIZE) 0x80001000 0,
            freelist := 0x80001000\<rparr>)"
proof -
  have one: "page_ref_list (all_refs 1) (PA2PGREF_ID tiny 0x80001000) = 1"
    by (simp add: all_refs_def)
  have k: "(2 :: nat) < 2 ^ 31" by simp
  have f: "freelist (all_refs 1) = 0" by (simp add: all_refs_def)
  note b = krefpage_kfree_balance[OF tiny_frame1 one k, unfolded tiny_ids]
  have 1: "krefpage_times tiny 2 0x80001000 (all_refs 1) =
     ([1, 1], (all_refs 1)\<lparr>page_ref_list := (page_ref_list (all_refs 1))(1 := 3)\<rparr>)"
    using b[THEN conjunct1] by (simp add: numeral_2_eq_2)
  have 2: "kfree_times tiny 2 0x80001000 (snd (krefpage_times tiny 2 0x80001000 (all_refs 1))) =
     Inr ((all_refs 1)\<lparr>page_ref_list := (page_ref_list (all_refs 1))(1 := 1)\<rparr>)"
    using b[THEN conjunct2, THEN conjunct1, rule_format, of 2] by simp
  have 3: "kfree_times tiny 3 0x80001000 (snd (krefpage_times tiny 2 0x80001000 (all_refs 1))) =
     Inr ((all_refs 1)\<lparr>page_ref_list := (page_ref_list (all_refs 1))(1 := 0),
            mem := write_next (memset (mem (all_refs 1)) 0x80001000 1 PGSIZE) 0x80001000 0,
            freelist := 0x80001000\<rparr>)"
    using b[THEN conjunct2, THEN conjunct2, THEN conjunct1] by (simp add: f)
  from k 1 2 3 show ?thesis by blast
qed

text \<open>
  Without the bound the claim fails: after \<open>2 ^ 31\<close> successful calls of \<open>krefpage(p)\<close> the
  count has wrapped around to a negative value, and the first call of \<open>kfree(p)\<close> already
  puts the frame on the free list.
\<close>

theorem krefpage_overflow_counterexample:
  "fst (krefpage_times tiny (2 ^ 31) 0x80001000 (all_refs 1)) = replicate (2 ^ 31) 1 \<and>
   freelist (snd (krefpage_times tiny (2 ^ 31) 0x80001000 (all_refs 1))) = 0 \<and>
   kfree_times tiny 1 0x80001000 (snd (krefpage_times tiny (2 ^ 31) 0x80001000 (all_refs 1))) =
     Inr ((all_refs 1)\<lparr>page_ref_list := (page_ref_list (all_refs 1))(1 := 0x80000000),
            mem := write_next (memset (mem (all_refs 1)) 0x80001000 1 PGSIZE) 0x80001000 0,
            freelist := 0x80001000\<rparr>)"
proof -
  let ?s1 = "(all_refs 1)\<lparr>page_ref_list := (page_ref_list (all_refs 1))(1 := 0x80000001)\<rparr>"
  have a: "krefpage_times tiny (2 ^ 31) 0x80001000 (all_refs 1) = (replicate (2 ^ 31) 1, ?s1)"
    unfolding krefpage_times_ok[OF tiny_frame1] by (simp add: tiny_ids all_refs_def)
  have "sint (page_ref_list ?s1 (PA2PGREF_ID tiny 0x80001000) - 1) \<le> 0"
    by (simp add: tiny_ids)
  from kfree_push[OF tiny_frame1 this]
  have b: "kfree tiny 0x80001000 ?s1 =
     Inr ((all_refs 1)\<lparr>page_ref_list := (page_ref_list (all_refs 1))(1 := 0x80000000),
            mem := write_next (memset (mem (all_refs 1)) 0x80001000 1 PGSIZE) 0x80001000 0,
            freelist := 0x80001000\<rparr>)"
    by (simp add: tiny_ids all_refs_def)
  show ?thesis
    unfolding a by (simp add: b) (simp add: all_refs_def)
qed

subsection \<open>cow_copy\<close>

lemma PGROUNDDOWN_idem: "PGROUNDDOWN (PGROUNDDOWN a) = PGROUNDDOWN a"
  by (simp add: PGROUNDDOWN_def and.assoc)

lemma PGROUNDDOWN_aligned: "page_aligned a \<Longrightarrow> PGROUNDDOWN a = a"
proof -
  assume "page_aligned a"
  then have "unat a mod 4096 = 0" by (simp add: aligned_unat)
  then have "unat (PGROUNDDOWN a) = unat a" by (simp add: PGROUNDDOWN_unat)
  then show ?thesis by (simp add: word_eq_iff_unsigned[where ?'a = nat])
qed

lemma cow_copy_fast:
  assumes "walk pagetable va = Some pte"
    and "page_ref_list s (PA2PGREF_ID M (PTE2PA M pte)) = 1"
  shows "cow_copy M mappages pagetable va s =
    Inr (PTE2PA M pte, pagetable(PGROUNDDOWN va \<mapsto> (pte AND NOT (PTE_COW M)) OR PTE_W M), s)"
  using assms by (simp add: cow_copy_def walk_def PGROUNDDOWN_idem Let_def)

lemma cow_copy_nomem:
  assumes "walk pagetable va = Some pte"
    and "page_ref_list s (PA2PGREF_ID M (PTE2PA M pte)) \<noteq> 1"
    and "freelist s = 0"
  shows "cow_copy M mappages pagetable va s = Inr (0, pagetable, s)"
  using assms by (simp add: cow_copy_def walk_def PGROUNDDOWN_idem Let_def kalloc_empty)

lemma cow_copy_slow:
  assumes "walk pagetable va = Some pte"
    and "page_ref_list s (PA2PGREF_ID M (PTE2PA M pte)) \<noteq> 1"
    and "freelist s \<noteq> 0"
  shows "cow_copy M mappages pagetable va s =
    (let x = freelist s;
         pa = PTE2PA M pte;
         s2 = s\<lparr>freelist := read_next (mem s) x,
                page_ref_list := (page_ref_list s)(PA2PGREF_ID M x := 1),
                mem := memmove (memset (mem s) x 5 PGSIZE) x pa PGSIZE\<rparr>;
         pagetable1 = pagetable(PGROUNDDOWN va \<mapsto> pte AND NOT (PTE_V M));
         flag = (PTE_FLAGS M (pte AND NOT (PTE_V M)) OR PTE_W M) AND NOT (PTE_COW M)
     in case mappages pagetable1 (PGROUNDDOWN va) PGSIZE x flag of
          None \<Rightarrow>
            (case kfree M x s2 of Inl e \<Rightarrow> Inl e | Inr s3 \<Rightarrow> Inr (0, pagetable1, s3))
        | Some pagetable2 \<Rightarrow>
            (case kfree M (PGROUNDDOWN pa) s2 of
               Inl e \<Rightarrow> Inl e
             | Inr s3 \<Rightarrow> Inr (x, pagetable2, s3)))"
  using assms
  by (simp add: cow_copy_def walk_def PGROUNDDOWN_idem Let_def kalloc_pop
        cong: option.case_cong sum.case_cong)

text \<open>
  Claim C4. For a page whose entry \<open>walk\<close> finds and whose frame has reference count exactly
  1, \<open>cow_copy\<close> returns the physical address that the entry maps and replaces the entry,
  in place, by the same entry with the writable flag set and the copy-on-write flag
  cleared (the two flags being different bits). The allocator state it returns is the
  state it was given: no frame is taken from the free list, no byte of memory is written,
  whatever the free list holds and whatever \<open>mappages\<close> would do.
\<close>

theorem cow_copy_sole_owner:
  assumes "walk pagetable va = Some pte"
    and "page_ref_list s (PA2PGREF_ID M (PTE2PA M pte)) = 1"
  shows
   "cow_copy M mappages pagetable va s =
      Inr (PTE2PA M pte,
           pagetable(PGROUNDDOWN va \<mapsto> (pte AND NOT (PTE_COW M)) OR PTE_W M), s) \<and>
    ((pte AND NOT (PTE_COW M)) OR PTE_W M) AND PTE_W M = PTE_W M \<and>
    (PTE_W M AND PTE_COW M = 0 \<longrightarrow>
       ((pte AND NOT (PTE_COW M)) OR PTE_W M) AND PTE_COW M = 0)"
proof -
  have "((pte AND NOT (PTE_COW M)) OR PTE_W M) AND PTE_COW M = 0"
    if "PTE_W M AND PTE_COW M = 0"
    using that by (simp add: bit.conj_disj_distrib2 and.assoc)
  moreover have "((pte AND NOT (PTE_COW M)) OR PTE_W M) AND PTE_W M = PTE_W M"
    by (simp add: bit.conj_disj_distrib2 and.commute or.commute)
  moreover have "cow_copy M mappages pagetable va s =
      Inr (PTE2PA M pte,
           pagetable(PGROUNDDOWN va \<mapsto> (pte AND NOT (PTE_COW M)) OR PTE_W M), s)"
    using assms by (rule cow_copy_fast)
  ultimately show ?thesis by simp
qed


lemma memmove_copy:
  assumes "page_aligned x" "page_aligned pa" "x \<noteq> pa" "k < PGSIZE"
  shows "memmove (memset m x c PGSIZE) x pa PGSIZE (x + k) = m (pa + k)"
proof -
  have "\<not> (pa + k) - x < PGSIZE" using assms by (intro pages_disjoint)
  then show ?thesis using assms(4) by (simp add: memmove_def memset_def)
qed

text \<open>
  Claim C5. For a page whose entry \<open>walk\<close> finds and whose frame \<open>pa\<close> has reference count 2:
  with an empty free list \<open>cow_copy\<close> returns 0 and changes nothing. When it returns a
  non-null address \<open>r\<close>, and \<open>pa\<close> is a page-aligned frame that is not among the frames \<open>xs\<close>
  of the free list, then \<open>r\<close> is the head of the free list and differs from \<open>pa\<close>, the 4096
  bytes at \<open>r\<close> afterwards are the bytes at \<open>pa\<close> before the call, the count of \<open>pa\<close> is one
  less than before (it is 1), and the free list afterwards is the rest of \<open>xs\<close>, still
  without \<open>pa\<close>.
\<close>

theorem cow_copy_shared:
  assumes w: "walk pagetable va = Some pte"
    and two: "page_ref_list s (PA2PGREF_ID M (PTE2PA M pte)) = 2"
  shows
   "(freelist s = 0 \<longrightarrow> cow_copy M mappages pagetable va s = Inr (0, pagetable, s)) \<and>
    (\<forall>r pagetable' s' xs.
       cow_copy M mappages pagetable va s = Inr (r, pagetable', s') \<and> r \<noteq> 0 \<and>
       free_frames s xs \<and> PTE2PA M pte \<notin> set xs \<and> page_aligned (PTE2PA M pte) \<longrightarrow>
         r = hd xs \<and> r \<noteq> PTE2PA M pte \<and>
         (\<forall>k. k < PGSIZE \<longrightarrow> mem s' (r + k) = mem s (PTE2PA M pte + k)) \<and>
         page_ref_list s' (PA2PGREF_ID M (PTE2PA M pte)) =
           page_ref_list s (PA2PGREF_ID M (PTE2PA M pte)) - 1 \<and>
         page_ref_list s' (PA2PGREF_ID M (PTE2PA M pte)) = 1 \<and>
         free_frames s' (tl xs) \<and> PTE2PA M pte \<notin> set (tl xs))"
proof (intro conjI allI impI)
  let ?pa = "PTE2PA M pte"
  have ne: "page_ref_list s (PA2PGREF_ID M ?pa) \<noteq> 1" using two by simp
  show "cow_copy M mappages pagetable va s = Inr (0, pagetable, s)" if "freelist s = 0"
    using w ne that by (rule cow_copy_nomem)
  fix r pagetable' s' xs
  assume a: "cow_copy M mappages pagetable va s = Inr (r, pagetable', s') \<and> r \<noteq> 0 \<and>
       free_frames s xs \<and> ?pa \<notin> set xs \<and> page_aligned ?pa"
  then have c: "cow_copy M mappages pagetable va s = Inr (r, pagetable', s')" and r: "r \<noteq> 0"
    and ff: "free_frames s xs" and pn: "?pa \<notin> set xs" and pal: "page_aligned ?pa"
    by simp_all
  have fl: "freelist s \<noteq> 0"
  proof
    assume "freelist s = 0"
    with cow_copy_nomem[OF w ne this, of mappages] c r show False by simp
  qed
  let ?x = "freelist s"
  let ?s2 = "s\<lparr>freelist := read_next (mem s) ?x,
                page_ref_list := (page_ref_list s)(PA2PGREF_ID M ?x := 1),
                mem := memmove (memset (mem s) ?x 5 PGSIZE) ?x ?pa PGSIZE\<rparr>"
  from ff fl obtain ys where xs: "xs = ?x # ys"
    by (cases xs) (auto simp add: free_frames_def)
  have xal: "page_aligned ?x" using ff xs by (simp add: free_frames_def)
  have xne: "?x \<noteq> ?pa" using pn xs by auto
  have idne: "PA2PGREF_ID M ?x \<noteq> PA2PGREF_ID M ?pa"
    using PA2PGREF_ID_inj[OF xal pal] xne by blast
  from c cow_copy_slow[OF w ne fl, of mappages]
  have k: "kfree M ?pa ?s2 = Inr s'" and rx: "r = ?x"
    using r by (auto simp add: Let_def PGROUNDDOWN_aligned[OF pal] split: option.splits sum.splits)
  have valid: "?pa mod PGSIZE = 0" "kend M \<le> ?pa" "?pa < PHYSTOP M"
    using k by (auto simp add: kfree_def split: if_splits)
  have "0 < sint (page_ref_list ?s2 (PA2PGREF_ID M ?pa) - 1)"
    using idne two by simp
  from kfree_count_only[OF valid this] k
  have s': "s' = ?s2\<lparr>page_ref_list := (page_ref_list ?s2)(PA2PGREF_ID M ?pa := 1)\<rparr>"
    using idne two by simp
  show "r = hd xs" using rx xs by simp
  show "r \<noteq> ?pa" using rx xne by simp
  show "mem s' (r + k) = mem s (?pa + k)" if "k < PGSIZE" for k
    unfolding rx s' using memmove_copy[OF xal pal xne that] by simp
  show "page_ref_list s' (PA2PGREF_ID M ?pa) = 1" by (simp add: s')
  then show "page_ref_list s' (PA2PGREF_ID M ?pa) = page_ref_list s (PA2PGREF_ID M ?pa) - 1"
    using two by simp
  have "same_outside_page ?x (mem s) (mem s')"
    unfolding s' using same_outside_trans[OF same_outside_memset same_outside_memmove]
    by simp
  moreover have "freelist s' = read_next (mem s) ?x" by (simp add: s')
  ultimately have "free_frames s' ys"
    using pop_free_frames[of s ?x ys s'] ff xs by simp
  then show "free_frames s' (tl xs)" by (simp add: xs)
  show "?pa \<notin> set (tl xs)" using pn xs by simp
qed


text \<open>
  Claim C9. For a page whose entry \<open>walk\<close> finds and whose frame has a reference count
  other than 1, \<open>cow_copy\<close> returns 0 in two cases. With an empty free list it returns 0
  and changes nothing. With a free list whose head \<open>x\<close> is a frame that \<open>kfree\<close> accepts and
  with \<open>mappages\<close> failing, it returns 0 as well; the state it leaves is the one \<open>kfree(x)\<close>
  leaves after the allocation and the copy (so \<open>x\<close> is back at the head of the free
  list), and the page table it leaves holds the old entry with the valid bit cleared:
  a page table different from the one it was given whenever the old entry was valid.
\<close>

theorem cow_copy_failure_paths:
  assumes w: "walk pagetable va = Some pte"
    and ne: "page_ref_list s (PA2PGREF_ID M (PTE2PA M pte)) \<noteq> 1"
  shows
   "(freelist s = 0 \<longrightarrow> cow_copy M mappages pagetable va s = Inr (0, pagetable, s)) \<and>
    (let x = freelist s;
         pa = PTE2PA M pte;
         pagetable1 = pagetable(PGROUNDDOWN va \<mapsto> pte AND NOT (PTE_V M));
         flag = (PTE_FLAGS M (pte AND NOT (PTE_V M)) OR PTE_W M) AND NOT (PTE_COW M);
         s2 = s\<lparr>freelist := read_next (mem s) x,
                page_ref_list := (page_ref_list s)(PA2PGREF_ID M x := 1),
                mem := memmove (memset (mem s) x 5 PGSIZE) x pa PGSIZE\<rparr>;
         s3 = s2\<lparr>page_ref_list := (page_ref_list s2)(PA2PGREF_ID M x := 0),
                 mem := write_next (memset (mem s2) x 1 PGSIZE) x (freelist s2),
                 freelist := x\<rparr>
     in x \<noteq> 0 \<and> x mod PGSIZE = 0 \<and> kend M \<le> x \<and> x < PHYSTOP M \<and>
        mappages pagetable1 (PGROUNDDOWN va) PGSIZE x flag = None \<longrightarrow>
          cow_copy M mappages pagetable va s = Inr (0, pagetable1, s3) \<and>
          kfree M x s2 = Inr s3 \<and>
          pagetable1 (PGROUNDDOWN va) = Some (pte AND NOT (PTE_V M)) \<and>
          (pte AND NOT (PTE_V M)) AND PTE_V M = 0 \<and>
          (pte AND PTE_V M \<noteq> 0 \<longrightarrow> pagetable1 \<noteq> pagetable))"
proof -
  let ?x = "freelist s"
  let ?pt1 = "pagetable(PGROUNDDOWN va \<mapsto> pte AND NOT (PTE_V M))"
  let ?flag = "(PTE_FLAGS M (pte AND NOT (PTE_V M)) OR PTE_W M) AND NOT (PTE_COW M)"
  let ?s2 = "s\<lparr>freelist := read_next (mem s) ?x,
                page_ref_list := (page_ref_list s)(PA2PGREF_ID M ?x := 1),
                mem := memmove (memset (mem s) ?x 5 PGSIZE) ?x (PTE2PA M pte) PGSIZE\<rparr>"
  let ?s3 = "?s2\<lparr>page_ref_list := (page_ref_list ?s2)(PA2PGREF_ID M ?x := 0),
                 mem := write_next (memset (mem ?s2) ?x 1 PGSIZE) ?x (freelist ?s2),
                 freelist := ?x\<rparr>"
  have 1: "freelist s = 0 \<longrightarrow> cow_copy M mappages pagetable va s = Inr (0, pagetable, s)"
    using cow_copy_nomem[OF w ne] by simp
  have 2: "kfree M ?x ?s2 = Inr ?s3" if "?x mod PGSIZE = 0" "kend M \<le> ?x" "?x < PHYSTOP M"
    using kfree_push[OF that, of ?s2] by simp
  have 3: "cow_copy M mappages pagetable va s = Inr (0, ?pt1, ?s3)"
    if "?x \<noteq> 0" "?x mod PGSIZE = 0" "kend M \<le> ?x" "?x < PHYSTOP M"
       "mappages ?pt1 (PGROUNDDOWN va) PGSIZE ?x ?flag = None"
    using cow_copy_slow[OF w ne that(1), of mappages] 2[OF that(2,3,4)] that(5)
    by (simp add: Let_def)
  have 4: "(pte AND NOT (PTE_V M)) AND PTE_V M = 0"
    by (simp add: and.assoc)
  have 5: "?pt1 \<noteq> pagetable" if v: "pte AND PTE_V M \<noteq> 0"
  proof
    assume "?pt1 = pagetable"
    then have "?pt1 (PGROUNDDOWN va) = pagetable (PGROUNDDOWN va)" by simp
    then have "pte AND NOT (PTE_V M) = pte" using w by (simp add: walk_def)
    then have "pte AND PTE_V M = (pte AND NOT (PTE_V M)) AND PTE_V M" by simp
    with 4 v show False by simp
  qed
  show ?thesis
    unfolding Let_def using 1 2 3 4 5 by simp
qed


lemma tiny_pte: "PTE2PA tiny 0x20000913 = 0x80002000" "PTE_V tiny = 1" "PTE_W tiny = 4"
  "PTE_COW tiny = 256" "PTE_FLAGS tiny x = x AND 0x3FF"
  by (simp_all add: tiny_def)

lemma walk_cow_pagetable: "walk cow_pagetable 0x4abc = Some 0x20000913"
  by (simp add: walk_def cow_pagetable_def PGROUNDDOWN_def PGSIZE_def)

lemma rounddown_4abc: "PGROUNDDOWN 0x4abc = 0x4000"
  by (simp add: PGROUNDDOWN_def PGSIZE_def)

theorem cow_copy_sole_owner_witness:
  "walk cow_pagetable 0x4abc = Some 0x20000913 \<and>
   page_ref_list (all_refs 1) (PA2PGREF_ID tiny (PTE2PA tiny 0x20000913)) = 1 \<and>
   cow_copy tiny mappages_none cow_pagetable 0x4abc (all_refs 1) =
     Inr (0x80002000, cow_pagetable(0x4000 \<mapsto> 0x20000817), all_refs 1)"
proof -
  have one: "page_ref_list (all_refs 1) (PA2PGREF_ID tiny (PTE2PA tiny 0x20000913)) = 1"
    by (simp add: all_refs_def)
  from cow_copy_sole_owner[OF walk_cow_pagetable one, of mappages_none]
  have "cow_copy tiny mappages_none cow_pagetable 0x4abc (all_refs 1) =
     Inr (0x80002000, cow_pagetable(0x4000 \<mapsto> 0x20000817), all_refs 1)"
    by (simp add: tiny_pte rounddown_4abc)
  with walk_cow_pagetable one show ?thesis by simp
qed


lemma tiny_frame2:
  "(0x80002000 :: 64 word) mod PGSIZE = 0" "kend tiny \<le> 0x80002000" "0x80002000 < PHYSTOP tiny"
  by (simp_all add: PGSIZE_def tiny_simps)

lemma shared_state_simps:
  "freelist shared_state = 0x80001000"
  "page_ref_list shared_state = (\<lambda>i. 0)(2 := 2)"
  "mem shared_state = write_next (\<lambda>a. 0) 0x80001000 0"
  by (simp_all add: shared_state_def)

lemma shared_state_frames: "free_frames shared_state [0x80001000]"
  by (simp add: free_frames_def shared_state_simps read_write_next page_aligned_def PGSIZE_def)

lemma cow_copy_shared_eval:
  "cow_copy tiny (mappages_one tiny) cow_pagetable 0x4abc shared_state =
     Inr (0x80001000,
          cow_pagetable(0x4000 \<mapsto> 0x20000417),
          shared_state\<lparr>freelist := 0,
            page_ref_list := (\<lambda>i. 0)(2 := 1, 1 := 1),
            mem := memmove (memset (mem shared_state) 0x80001000 5 PGSIZE)
                     0x80001000 0x80002000 PGSIZE\<rparr>)"
proof -
  have ne: "page_ref_list shared_state (PA2PGREF_ID tiny (PTE2PA tiny 0x20000913)) \<noteq> 1"
    by (simp add: tiny_pte tiny_ids shared_state_simps)
  have fl: "freelist shared_state \<noteq> 0" by (simp add: shared_state_simps)
  let ?s2 = "shared_state\<lparr>freelist := 0,
                page_ref_list := (page_ref_list shared_state)(1 := 1),
                mem := memmove (memset (mem shared_state) 0x80001000 5 PGSIZE)
                         0x80001000 0x80002000 PGSIZE\<rparr>"
  have "0 < sint (page_ref_list ?s2 (PA2PGREF_ID tiny 0x80002000) - 1)"
    by (simp add: tiny_ids shared_state_simps)
  from kfree_count_only[OF tiny_frame2 this]
  have k: "kfree tiny 0x80002000 ?s2 =
      Inr (shared_state\<lparr>freelist := 0,
            page_ref_list := (\<lambda>i. 0)(2 := 1, 1 := 1),
            mem := memmove (memset (mem shared_state) 0x80001000 5 PGSIZE)
                     0x80001000 0x80002000 PGSIZE\<rparr>)"
    by (simp add: tiny_ids shared_state_simps fun_upd_twist)
  have rd: "PGROUNDDOWN 0x80002000 = 0x80002000" by (simp add: PGROUNDDOWN_def PGSIZE_def)
  have rn: "read_next (mem shared_state) 0x80001000 = 0"
    by (simp add: shared_state_simps read_write_next)
  show ?thesis
    unfolding cow_copy_slow[OF walk_cow_pagetable ne fl]
    by (simp add: Let_def tiny_pte tiny_ids rounddown_4abc mappages_one_def rd rn k
          shared_state_simps(1))
qed

theorem cow_copy_shared_witness:
  "walk cow_pagetable 0x4abc = Some 0x20000913 \<and>
   page_ref_list shared_state (PA2PGREF_ID tiny (PTE2PA tiny 0x20000913)) = 2 \<and>
   free_frames shared_state [0x80001000] \<and>
   (\<exists>pagetable' s'.
      cow_copy tiny (mappages_one tiny) cow_pagetable 0x4abc shared_state =
        Inr (0x80001000, pagetable', s') \<and>
      mem s' (0x80001000 + 7) = mem shared_state (0x80002000 + 7) \<and>
      page_ref_list s' 2 = 1 \<and> free_frames s' [])"
proof -
  have two: "page_ref_list shared_state (PA2PGREF_ID tiny (PTE2PA tiny 0x20000913)) = 2"
    by (simp add: tiny_pte tiny_ids shared_state_simps)
  have al: "page_aligned (PTE2PA tiny 0x20000913)"
    by (simp add: tiny_pte page_aligned_def PGSIZE_def)
  have nin: "PTE2PA tiny 0x20000913 \<notin> set [0x80001000]" by (simp add: tiny_pte)
  have lt: "(7 :: 64 word) < PGSIZE" by (simp add: PGSIZE_def)
  note c = cow_copy_shared[OF walk_cow_pagetable two, of "mappages_one tiny",
      THEN conjunct2, rule_format, OF conjI[OF cow_copy_shared_eval
        conjI[OF _ conjI[OF shared_state_frames conjI[OF nin al]]]]]
  have r: "(0x80001000 :: 64 word) \<noteq> 0" by simp
  note d = c[OF r]
  from d[THEN conjunct2, THEN conjunct2, THEN conjunct1, rule_format, OF lt]
       d[THEN conjunct2, THEN conjunct2, THEN conjunct2, THEN conjunct2, THEN conjunct1]
       d[THEN conjunct2, THEN conjunct2, THEN conjunct2, THEN conjunct2, THEN conjunct2, THEN conjunct1]
  have "mem (shared_state\<lparr>freelist := 0,
            page_ref_list := (\<lambda>i. 0)(2 := 1, 1 := 1),
            mem := memmove (memset (mem shared_state) 0x80001000 5 PGSIZE)
                     0x80001000 0x80002000 PGSIZE\<rparr>) (0x80001000 + 7) = mem shared_state (0x80002000 + 7) \<and>
      page_ref_list (shared_state\<lparr>freelist := 0,
            page_ref_list := (\<lambda>i. 0)(2 := 1, 1 := 1),
            mem := memmove (memset (mem shared_state) 0x80001000 5 PGSIZE)
                     0x80001000 0x80002000 PGSIZE\<rparr>) 2 = 1 \<and>
      free_frames (shared_state\<lparr>freelist := 0,
            page_ref_list := (\<lambda>i. 0)(2 := 1, 1 := 1),
            mem := memmove (memset (mem shared_state) 0x80001000 5 PGSIZE)
                     0x80001000 0x80002000 PGSIZE\<rparr>) []"
    by (simp add: tiny_pte tiny_ids)
  with cow_copy_shared_eval walk_cow_pagetable two shared_state_frames
  show ?thesis by blast
qed


theorem cow_copy_failure_paths_witness:
  "walk cow_pagetable 0x4abc = Some 0x20000913 \<and>
   page_ref_list shared_state (PA2PGREF_ID tiny (PTE2PA tiny 0x20000913)) \<noteq> 1 \<and>
   cow_copy tiny mappages_none cow_pagetable 0x4abc shared_state =
     Inr (0, cow_pagetable(0x4000 \<mapsto> 0x20000912),
          shared_state\<lparr>page_ref_list := (\<lambda>i. 0)(2 := 2, 1 := 0),
            mem := write_next (memset (memmove (memset (mem shared_state) 0x80001000 5 PGSIZE)
                     0x80001000 0x80002000 PGSIZE) 0x80001000 1 PGSIZE) 0x80001000 0,
            freelist := 0x80001000\<rparr>) \<and>
   cow_pagetable(0x4000 \<mapsto> 0x20000912) \<noteq> cow_pagetable"
proof -
  have ne: "page_ref_list shared_state (PA2PGREF_ID tiny (PTE2PA tiny 0x20000913)) \<noteq> 1"
    by (simp add: tiny_pte tiny_ids shared_state_simps)
  have rn: "read_next (mem shared_state) 0x80001000 = 0"
    by (simp add: shared_state_simps read_write_next)
  from cow_copy_failure_paths[OF walk_cow_pagetable ne, of mappages_none, THEN conjunct2]
  have "cow_copy tiny mappages_none cow_pagetable 0x4abc shared_state =
     Inr (0, cow_pagetable(0x4000 \<mapsto> 0x20000912),
          shared_state\<lparr>page_ref_list := (\<lambda>i. 0)(2 := 2, 1 := 0),
            mem := write_next (memset (memmove (memset (mem shared_state) 0x80001000 5 PGSIZE)
                     0x80001000 0x80002000 PGSIZE) 0x80001000 1 PGSIZE) 0x80001000 0,
            freelist := 0x80001000\<rparr>) \<and>
   cow_pagetable(0x4000 \<mapsto> 0x20000912) \<noteq> cow_pagetable"
    by (simp add: Let_def tiny_pte tiny_ids tiny_frame1 rounddown_4abc mappages_none_def rn
          shared_state_simps(1,2))
  with walk_cow_pagetable ne show ?thesis by blast
qed

subsection \<open>Reference counts stay non-negative\<close>

lemma sint_dec:
  assumes "0 < sint (c :: 32 word)"
  shows "sint (c - 1) = sint c - 1"
proof -
  have "sint (c - 1) = signed_take_bit 31 (sint c - 1)"
    by (simp add: sint_word_ariths)
  moreover have "sint c < 2 ^ 31" using sint_lt[of c] by simp
  ultimately show ?thesis using assms
    by (simp add: signed_take_bit_int_eq_self)
qed

lemma sint_inc:
  assumes "0 \<le> sint (c :: 32 word)" "sint c < 2 ^ 31 - 1"
  shows "sint (c + 1) = sint c + 1"
proof -
  have "sint (c + 1) = signed_take_bit 31 (sint c + 1)"
    by (simp add: sint_word_ariths)
  then show ?thesis using assms
    by (simp add: signed_take_bit_int_eq_self)
qed

lemma kfree_live_nonneg:
  assumes n: "refs_nonneg s" and l: "0 < sint (page_ref_list s (PA2PGREF_ID M pa))"
    and k: "kfree M pa s = Inr s'"
  shows "refs_nonneg s'"
proof -
  let ?i = "PA2PGREF_ID M pa"
  have d: "0 \<le> sint (page_ref_list s ?i - 1)" using sint_dec[OF l] l by simp
  from k have "page_ref_list s' = (page_ref_list s)(?i := page_ref_list s ?i - 1)"
    by (auto simp add: kfree_def Let_def split: if_splits)
  with n d show ?thesis by (simp add: refs_nonneg_def)
qed

lemma kalloc_nonneg: "refs_nonneg s \<Longrightarrow> refs_nonneg (snd (kalloc M s))"
  by (simp add: kalloc_def Let_def refs_nonneg_def)

lemma krefpage_nonneg:
  assumes "refs_nonneg s" "sint (page_ref_list s (PA2PGREF_ID M pa)) < 2 ^ 31 - 1"
  shows "refs_nonneg (snd (krefpage M pa s))"
proof -
  have "0 \<le> sint (page_ref_list s (PA2PGREF_ID M pa))" using assms(1) by (simp add: refs_nonneg_def)
  from sint_inc[OF this assms(2)] this assms(1) show ?thesis
    by (simp add: krefpage_def Let_def refs_nonneg_def)
qed

lemma cow_copy_nonneg:
  assumes n: "refs_nonneg s" and w: "walk pagetable va = Some pte"
    and l: "0 < sint (page_ref_list s (PA2PGREF_ID M (PGROUNDDOWN (PTE2PA M pte))))"
    and c: "cow_copy M mappages pagetable va s = Inr (r, pagetable', s')"
  shows "refs_nonneg s'"
proof (cases "page_ref_list s (PA2PGREF_ID M (PTE2PA M pte)) = 1")
  case True
  from cow_copy_fast[OF w True, of mappages] c show ?thesis using n by simp
next
  case ne: False
  show ?thesis
  proof (cases "freelist s = 0")
    case True
    from cow_copy_nomem[OF w ne True, of mappages] c show ?thesis using n by simp
  next
    case fl: False
    let ?x = "freelist s"
    let ?pa = "PTE2PA M pte"
    let ?s2 = "s\<lparr>freelist := read_next (mem s) ?x,
                page_ref_list := (page_ref_list s)(PA2PGREF_ID M ?x := 1),
                mem := memmove (memset (mem s) ?x 5 PGSIZE) ?x ?pa PGSIZE\<rparr>"
    have n2: "refs_nonneg ?s2" using n by (simp add: refs_nonneg_def)
    have lx: "0 < sint (page_ref_list ?s2 (PA2PGREF_ID M ?x))" by simp
    have lp: "0 < sint (page_ref_list ?s2 (PA2PGREF_ID M (PGROUNDDOWN ?pa)))" using l by simp
    from c cow_copy_slow[OF w ne fl, of mappages]
    have "kfree M ?x ?s2 = Inr s' \<or> kfree M (PGROUNDDOWN ?pa) ?s2 = Inr s'"
      by (auto simp add: Let_def split: option.splits sum.splits)
    then show ?thesis
      using kfree_live_nonneg[OF n2 lx] kfree_live_nonneg[OF n2 lp] by blast
  qed
qed

text \<open>
  Claim C6, for live frames. On a valid layout, in every state reachable from boot by
  \<open>kalloc\<close>, by \<open>kfree\<close> on frames whose count is at least 1, by \<open>krefpage\<close> on frames whose
  count is below the largest \<open>int\<close>, and by \<open>cow_copy\<close> on pages whose frame has a count of
  at least 1, every entry of the page-reference table has a count of at least 0.
\<close>

theorem refcount_nonneg:
  assumes v: "valid_layout M" and r: "reachable_live M mappages s"
  shows "0 \<le> sint (page_ref_list s i)"
proof -
  from r have "refs_nonneg s"
  proof induction
    case (boot m s)
    from kinit_frames[OF v, of m] boot
    have "\<forall>i. page_ref_list s i = 0 \<or> page_ref_list s i = 1" by auto
    moreover have "0 \<le> sint (0 :: 32 word)" "0 \<le> sint (1 :: 32 word)" by simp_all
    ultimately show ?case unfolding refs_nonneg_def by metis
  next
    case (kalloc s)
    then show ?case by (simp add: kalloc_nonneg)
  next
    case (kfree s pa s')
    then show ?case using kfree_live_nonneg by blast
  next
    case (krefpage s pa)
    then show ?case using krefpage_nonneg by blast
  next
    case (cow_copy s pagetable va pte r pagetable' s')
    then show ?case using cow_copy_nonneg by blast
  qed
  then show ?thesis by (simp add: refs_nonneg_def)
qed


lemma kinit_tiny_booted: "kinit tiny (boot_state (\<lambda>a. 0)) = Some (Inr tiny_booted)"
  by (simp add: kinit_tiny tiny_booted_def)

theorem refcount_nonneg_witness:
  "valid_layout tiny \<and>
   reachable_live tiny mappages_none
     (snd (krefpage tiny 0x80002000 (snd (kalloc tiny tiny_booted)))) \<and>
   0 \<le> sint (page_ref_list (snd (krefpage tiny 0x80002000 (snd (kalloc tiny tiny_booted)))) 2)"
proof -
  have b: "reachable_live tiny mappages_none tiny_booted"
    using kinit_tiny_booted by (rule reachable_live.boot)
  have a: "reachable_live tiny mappages_none (snd (kalloc tiny tiny_booted))"
    using b by (rule reachable_live.kalloc)
  have "sint (page_ref_list (snd (kalloc tiny tiny_booted)) (PA2PGREF_ID tiny 0x80002000)) < 2 ^ 31 - 1"
    by (simp add: kalloc_def Let_def tiny_booted_def tiny_ids)
  with a have r: "reachable_live tiny mappages_none
     (snd (krefpage tiny 0x80002000 (snd (kalloc tiny tiny_booted))))"
    by (rule reachable_live.krefpage)
  from refcount_nonneg[OF valid_tiny r, of 2] valid_tiny r show ?thesis by simp
qed

text \<open>
  With \<open>kfree\<close> applied to any address that passes its check, the invariant fails: after
  boot the frame \<open>0x80001000\<close> is on the free list with count 0, \<open>kfree\<close> accepts it again,
  and its count becomes -1.
\<close>

theorem double_free_counterexample:
  "valid_layout tiny \<and>
   kinit tiny (boot_state (\<lambda>a. 0)) = Some (Inr tiny_booted) \<and>
   kfree tiny 0x80001000 tiny_booted =
     Inr (tiny_booted\<lparr>page_ref_list := (page_ref_list tiny_booted)(1 := - 1),
            mem := write_next (memset (mem tiny_booted) 0x80001000 1 PGSIZE)
                     0x80001000 0x80002000,
            freelist := 0x80001000\<rparr>) \<and>
   reachable tiny mappages_none
     (tiny_booted\<lparr>page_ref_list := (page_ref_list tiny_booted)(1 := - 1),
            mem := write_next (memset (mem tiny_booted) 0x80001000 1 PGSIZE)
                     0x80001000 0x80002000,
            freelist := 0x80001000\<rparr>) \<and>
   sint (page_ref_list
     (tiny_booted\<lparr>page_ref_list := (page_ref_list tiny_booted)(1 := - 1),
            mem := write_next (memset (mem tiny_booted) 0x80001000 1 PGSIZE)
                     0x80001000 0x80002000,
            freelist := 0x80001000\<rparr>) 1) = - 1"
proof -
  have "sint (page_ref_list tiny_booted (PA2PGREF_ID tiny 0x80001000) - 1) \<le> 0"
    by (simp add: tiny_ids tiny_booted_def)
  from kfree_push[OF tiny_frame1 this]
  have k: "kfree tiny 0x80001000 tiny_booted =
     Inr (tiny_booted\<lparr>page_ref_list := (page_ref_list tiny_booted)(1 := - 1),
            mem := write_next (memset (mem tiny_booted) 0x80001000 1 PGSIZE)
                     0x80001000 0x80002000,
            freelist := 0x80001000\<rparr>)"
    by (simp add: tiny_ids) (simp add: tiny_booted_def)
  have "reachable tiny mappages_none tiny_booted"
    using kinit_tiny_booted by (rule reachable.boot)
  then have "reachable tiny mappages_none
     (tiny_booted\<lparr>page_ref_list := (page_ref_list tiny_booted)(1 := - 1),
            mem := write_next (memset (mem tiny_booted) 0x80001000 1 PGSIZE)
                     0x80001000 0x80002000,
            freelist := 0x80001000\<rparr>)"
    using k by (rule reachable.kfree)
  with valid_tiny kinit_tiny_booted k show ?thesis by simp
qed

section \<open>Properties of the buffer cache\<close>

subsection \<open>Eviction and live buffers\<close>

lemma scan_bucket_victim:
  "scan_bucket bs target d n xs minb mts = Inr (Some v, ts) \<Longrightarrow>
     (minb = Some v \<and> ts = mts) \<or>
     (v \<in> set xs \<and> refcnt (bs ! v) = 0 \<and> timestamp (bs ! v) = ts \<and> ts < mts)"
proof (induction xs arbitrary: minb mts)
  case Nil
  then show ?case by simp
next
  case (Cons b rest)
  show ?case
  proof (cases "target \<and> dev (bs ! b) = d \<and> blockno (bs ! b) = n")
    case True
    with Cons.prems show ?thesis by simp
  next
    case nt: False
    show ?thesis
    proof (cases "refcnt (bs ! b) = 0 \<and> timestamp (bs ! b) < mts")
      case True
      with nt Cons.prems
      have "scan_bucket bs target d n rest (Some b) (timestamp (bs ! b)) = Inr (Some v, ts)"
        by auto
      from Cons.IH[OF this] True show ?thesis by (auto intro: less_trans)
    next
      case False
      with nt Cons.prems
      have "scan_bucket bs target d n rest minb mts = Inr (Some v, ts)" by auto
      from Cons.IH[OF this] show ?thesis by auto
    qed
  qed
qed

lemma scan_bucket_hit:
  "scan_bucket bs target d n xs minb mts = Inl b \<Longrightarrow>
     target \<and> b \<in> set xs \<and> dev (bs ! b) = d \<and> blockno (bs ! b) = n"
  by (induction xs arbitrary: minb mts) (auto split: if_splits)

lemma nth_list_update_cases:
  "(xs[i := x]) ! j = (if j = i \<and> i < length xs then x else xs ! j)"
  by (auto simp add: list_update_beyond not_less)

lemma acquiresleep_key:
  "acquiresleep b c = Inr (b', c') \<Longrightarrow>
     b' = b \<and> dev (bufs c' ! j) = dev (bufs c ! j) \<and> blockno (bufs c' ! j) = blockno (bufs c ! j)
     \<and> length (bufs c') = length (bufs c)"
  by (auto simp add: acquiresleep_def nth_list_update_cases split: if_splits)

lemma evict_loop_keeps_live:
  "evict_loop nbucket k idx d n c = Inr (b, c') \<Longrightarrow> refcnt (bufs c ! j) \<noteq> 0 \<Longrightarrow>
     dev (bufs c' ! j) = dev (bufs c ! j) \<and> blockno (bufs c' ! j) = blockno (bufs c ! j)"
proof (induction nbucket k idx d n c rule: evict_loop.induct)
  case (1 nbucket idx d n c)
  then show ?case by simp
next
  case (2 nbucket k idx d n c)
  let ?r = "scan_bucket (bufs c) (idx = HASH nbucket n) d n (buckets c ! idx) None (- 1)"
  show ?case
  proof (cases ?r)
    case (Inl h)
    with "2.prems"(1) have "acquiresleep h
        (c\<lparr>bufs := (bufs c)[h := (bufs c ! h)\<lparr>refcnt := refcnt (bufs c ! h) + 1\<rparr>]\<rparr>) = Inr (b, c')"
      by simp
    from acquiresleep_key[OF this, of j] show ?thesis
      by (auto simp add: nth_list_update_cases)
  next
    case (Inr p)
    obtain minb mts where p: "p = (minb, mts)" by (cases p)
    show ?thesis
    proof (cases minb)
      case None
      with Inr p "2.prems" "2.IH"[of p minb mts] show ?thesis by simp
    next
      case (Some v)
      from scan_bucket_victim[of "bufs c" _ d n _ None "- 1" v mts] Inr p Some
      have z: "refcnt (bufs c ! v) = 0" by auto
      with "2.prems"(2) have jv: "j \<noteq> v" by auto
      from Inr p Some "2.prems"(1) obtain c2 where
        a: "acquiresleep v c2 = Inr (b, c')" and
        b2: "bufs c2 = (bufs c)[v := (bufs c ! v)\<lparr>dev := d, blockno := n, valid := 0, refcnt := 1\<rparr>]"
        by (auto simp add: Let_def split: if_splits)
      from acquiresleep_key[OF a, of j] b2 jv show ?thesis
        by (simp add: nth_list_update_cases)
    qed
  qed
qed

lemma evict_loop_key:
  "evict_loop nbucket k idx d n c = Inr (b, c') \<Longrightarrow> b < length (bufs c) \<Longrightarrow>
     dev (bufs c' ! b) = d \<and> blockno (bufs c' ! b) = n"
proof (induction nbucket k idx d n c rule: evict_loop.induct)
  case (1 nbucket idx d n c)
  then show ?case by simp
next
  case (2 nbucket k idx d n c)
  let ?r = "scan_bucket (bufs c) (idx = HASH nbucket n) d n (buckets c ! idx) None (- 1)"
  show ?case
  proof (cases ?r)
    case (Inl h)
    with "2.prems"(1) have a: "acquiresleep h
        (c\<lparr>bufs := (bufs c)[h := (bufs c ! h)\<lparr>refcnt := refcnt (bufs c ! h) + 1\<rparr>]\<rparr>) = Inr (b, c')"
      by simp
    from scan_bucket_hit[OF Inl] acquiresleep_key[OF a, of b] "2.prems"(2) show ?thesis
      by (auto simp add: nth_list_update_cases)
  next
    case (Inr p)
    obtain minb mts where p: "p = (minb, mts)" by (cases p)
    show ?thesis
    proof (cases minb)
      case None
      with Inr p "2.prems" "2.IH"[of p minb mts] show ?thesis by simp
    next
      case (Some v)
      from Inr p Some "2.prems"(1) obtain c2 where
        a: "acquiresleep v c2 = Inr (b, c')" and
        b2: "bufs c2 = (bufs c)[v := (bufs c ! v)\<lparr>dev := d, blockno := n, valid := 0, refcnt := 1\<rparr>]"
        by (auto simp add: Let_def split: if_splits)
      from acquiresleep_key[OF a, of b] b2 "2.prems"(2) show ?thesis
        by (auto simp add: nth_list_update_cases)
    qed
  qed
qed

text \<open>
  Claim C7. The buffer that a scan of a chain leaves in \<open>minb\<close> is on that chain and has
  \<open>refcnt == 0\<close>. When the eviction scan returns a buffer, every buffer whose \<open>refcnt\<close> was
  not 0 before the call still has its device and block number, and the buffer returned
  carries the requested device and block number. The eviction scan is what \<open>bget\<close> runs
  when the block is not on the chain of its bucket and all \<open>NBUF\<close> slots have been claimed.
\<close>

theorem eviction_spares_live_buffers:
  "(\<forall>v ts. scan_bucket bs target d n xs None (- 1) = Inr (Some v, ts) \<longrightarrow>
      v \<in> set xs \<and> refcnt (bs ! v) = 0) \<and>
   (\<forall>b c'. evict_loop nbucket k idx d n c = Inr (b, c') \<longrightarrow>
      (\<forall>j. refcnt (bufs c ! j) \<noteq> 0 \<longrightarrow>
         dev (bufs c' ! j) = dev (bufs c ! j) \<and> blockno (bufs c' ! j) = blockno (bufs c ! j)) \<and>
      (b < length (bufs c) \<longrightarrow> dev (bufs c' ! b) = d \<and> blockno (bufs c' ! b) = n)) \<and>
   (find_cached (bufs c) d n (buckets c ! HASH nbucket n) = None \<and> \<not> bcache_size c < nbuf \<longrightarrow>
      bget nbuf nbucket d n c = evict_loop nbucket nbucket (HASH nbucket n) d n c)"
proof -
  have 1: "\<forall>v ts. scan_bucket bs target d n xs None (- 1) = Inr (Some v, ts) \<longrightarrow>
      v \<in> set xs \<and> refcnt (bs ! v) = 0"
    using scan_bucket_victim[of bs target d n xs None "- 1"] by auto
  have 2: "\<forall>b c'. evict_loop nbucket k idx d n c = Inr (b, c') \<longrightarrow>
      (\<forall>j. refcnt (bufs c ! j) \<noteq> 0 \<longrightarrow>
         dev (bufs c' ! j) = dev (bufs c ! j) \<and> blockno (bufs c' ! j) = blockno (bufs c ! j)) \<and>
      (b < length (bufs c) \<longrightarrow> dev (bufs c' ! b) = d \<and> blockno (bufs c' ! b) = n)"
    using evict_loop_keeps_live evict_loop_key by blast
  have 3: "find_cached (bufs c) d n (buckets c ! HASH nbucket n) = None \<and> \<not> bcache_size c < nbuf \<longrightarrow>
      bget nbuf nbucket d n c = evict_loop nbucket nbucket (HASH nbucket n) d n c"
    by (simp add: bget_def Let_def)
  from 1 2 3 show ?thesis by blast
qed

subsection \<open>Four reads, four releases and a fifth read\<close>

lemma replicate4: "replicate 4 x = [x, x, x, x]"
  by (simp add: numeral_eq_Suc)

lemma replicate2: "replicate 2 x = [x, x]"
  by (simp add: numeral_eq_Suc)

lemma HASH2: "HASH 2 1 = 1" "HASH 2 2 = 0" "HASH 2 3 = 1" "HASH 2 4 = 0" "HASH 2 5 = 1"
  by (simp_all add: HASH_def)

lemma four_reads:
  "bread_all 4 2 [(0, 1), (0, 2), (0, 3), (0, 4)] (binit 4 2) = Inr ([0, 1, 2, 3], four_read)"
  by (simp add: binit_def replicate4 replicate2 bread_def bget_def HASH2 acquiresleep_def
        Let_def four_read_def cached_def)


lemma brelse_held_once:
  assumes "locked (bufs c ! i)" "refcnt (bufs c ! i) = 1"
  shows "brelse t i c = Inr (c\<lparr>bufs := (bufs c)[i := released t (bufs c ! i)]\<rparr>)"
  using assms by (simp add: brelse_def released_def Let_def)

lemma brelse_all_distinct:
  "distinct (map fst rel) \<Longrightarrow>
   (\<forall>(i, t)\<in>set rel. i < length (bufs c) \<and> locked (bufs c ! i) \<and> refcnt (bufs c ! i) = 1) \<Longrightarrow>
   \<exists>c'. brelse_all rel c = Inr c' \<and> bcache_size c' = bcache_size c \<and>
        buckets c' = buckets c \<and> length (bufs c') = length (bufs c) \<and>
        (\<forall>j<length (bufs c). bufs c' ! j =
           (case map_of rel j of None \<Rightarrow> bufs c ! j | Some t \<Rightarrow> released t (bufs c ! j)))"
proof (induction rel arbitrary: c)
  case Nil
  then show ?case by simp
next
  case (Cons p rs)
  obtain i t where p: "p = (i, t)" by (cases p)
  let ?c1 = "c\<lparr>bufs := (bufs c)[i := released t (bufs c ! i)]\<rparr>"
  from Cons.prems p have i: "i < length (bufs c)" "locked (bufs c ! i)" "refcnt (bufs c ! i) = 1"
    and ni: "i \<notin> fst ` set rs" and d: "distinct (map fst rs)"
    by auto
  have b: "brelse t i c = Inr ?c1" using i by (simp add: brelse_held_once)
  have pre: "\<forall>(i', t')\<in>set rs. i' < length (bufs ?c1) \<and> locked (bufs ?c1 ! i') \<and>
       refcnt (bufs ?c1 ! i') = 1"
  proof (clarify)
    fix i' t' assume m: "(i', t') \<in> set rs"
    then have "i' \<noteq> i" using ni by force
    moreover from m Cons.prems(2) have "i' < length (bufs c) \<and> locked (bufs c ! i') \<and>
       refcnt (bufs c ! i') = 1" by auto
    ultimately show "i' < length (bufs ?c1) \<and> locked (bufs ?c1 ! i') \<and>
       refcnt (bufs ?c1 ! i') = 1" by simp
  qed
  from Cons.IH[OF d pre] obtain c' where c': "brelse_all rs ?c1 = Inr c'"
    "bcache_size c' = bcache_size c" "buckets c' = buckets c"
    "length (bufs c') = length (bufs c)"
    "\<forall>j<length (bufs c). bufs c' ! j =
       (case map_of rs j of None \<Rightarrow> bufs ?c1 ! j | Some t \<Rightarrow> released t (bufs ?c1 ! j))"
    by auto
  have mi: "map_of rs i = None" using ni by (simp add: map_of_eq_None_iff)
  have "\<forall>j<length (bufs c). bufs c' ! j =
       (case map_of (p # rs) j of None \<Rightarrow> bufs c ! j | Some t \<Rightarrow> released t (bufs c ! j))"
  proof (intro allI impI)
    fix j assume j: "j < length (bufs c)"
    show "bufs c' ! j =
       (case map_of (p # rs) j of None \<Rightarrow> bufs c ! j | Some t \<Rightarrow> released t (bufs c ! j))"
    proof (cases "j = i")
      case True
      with c'(5) j mi i(1) show ?thesis by (simp add: p)
    next
      case False
      with c'(5) j show ?thesis by (simp add: p split: option.splits)
    qed
  qed
  with c' b show ?case by (simp add: p)
qed

lemma four_releases:
  assumes d: "distinct (map fst rel)"
    and s: "set rel = {(0, t0), (1, t1), (2, t2), (3, t3)}"
  shows "brelse_all rel four_read = Inr (four_released t0 t1 t2 t3)"
proof -
  have pre: "\<forall>(i, t)\<in>set rel. i < length (bufs four_read) \<and> locked (bufs four_read ! i) \<and>
      refcnt (bufs four_read ! i) = 1"
    unfolding s by (simp add: four_read_def cached_def)
  from brelse_all_distinct[OF d pre] obtain c' where c': "brelse_all rel four_read = Inr c'"
    "bcache_size c' = 4" "buckets c' = [[3, 1], [2, 0]]" "length (bufs c') = 4"
    "\<forall>j<4. bufs c' ! j =
       (case map_of rel j of None \<Rightarrow> bufs four_read ! j | Some t \<Rightarrow> released t (bufs four_read ! j))"
    by (auto simp add: four_read_def)
  have m: "map_of rel 0 = Some t0" "map_of rel 1 = Some t1" "map_of rel 2 = Some t2"
      "map_of rel 3 = Some t3"
    using d by (auto intro!: map_of_is_SomeI simp add: s)
  have "bufs c' = bufs (four_released t0 t1 t2 t3)"
  proof (rule nth_equalityI)
    show "length (bufs c') = length (bufs (four_released t0 t1 t2 t3))"
      by (simp add: c'(4) four_released_def)
    fix j assume "j < length (bufs c')"
    then have j: "j < 4" by (simp add: c'(4))
    then have "j = 0 \<or> j = 1 \<or> j = 2 \<or> j = 3" by arith
    with c'(5) j m show "bufs c' ! j = bufs (four_released t0 t1 t2 t3) ! j"
      by (auto simp add: four_read_def four_released_def)
  qed
  with c'(2,3) have "c' = four_released t0 t1 t2 t3"
    by (simp add: four_released_def)
  with c'(1) show ?thesis by simp
qed

lemma max_uint: "(0xFFFFFFFF :: 32 word) = - 1"
  by simp

lemma evict_loop_2:
  "evict_loop nb 2 idx d n c = evict_loop nb (Suc (Suc 0)) idx d n c"
  by (simp add: numeral_2_eq_2)

lemma read5_after_release:
  assumes "t0 < - 1" "t2 < - 1"
  shows "bread 4 2 0 5 (four_released t0 t1 t2 t3) =
     Inr (if t0 < t2 then 0 else 2,
          (four_released t0 t1 t2 t3)\<lparr>bufs := (bufs (four_released t0 t1 t2 t3))
             [(if t0 < t2 then 0 else 2) :=
                (cached 0 5)\<lparr>timestamp := (if t0 < t2 then t0 else t2)\<rparr>]\<rparr>)"
  using assms
  by (simp add: bread_def bget_def HASH2 four_released_def released_def cached_def Let_def
        evict_loop_2 acquiresleep_def)

text \<open>
  Claim C8, with the victim chosen inside the bucket of block 5. With four buffers and two
  buckets, reading the blocks (0,1), (0,2), (0,3), (0,4) in order fills the slots 0, 1, 2,
  3, one fresh slot each. The chain of bucket 1, where block 5 belongs, then holds the
  buffer of block 3 followed by the buffer of block 1. After the four buffers have been
  released in any order, the buffers of blocks 1 and 3 at ticks below \<open>2^32 - 1\<close>, reading
  (0,5) returns one of these two: the buffer of block 1 when its release tick is smaller
  than that of block 3, the buffer of block 3 otherwise. That buffer now holds (0,5), the
  other three keep their blocks, the four keys are distinct, the four buffers are valid,
  and the chains are as before.
\<close>

theorem four_reads_then_fifth:
  "bread_all 4 2 [(0, 1), (0, 2), (0, 3), (0, 4)] (binit 4 2) = Inr ([0, 1, 2, 3], four_read) \<and>
   bcache_size four_read = 4 \<and>
   map (\<lambda>b. (dev b, blockno b)) (bufs four_read) = [(0, 1), (0, 2), (0, 3), (0, 4)] \<and>
   buckets four_read ! HASH 2 5 = [2, 0] \<and>
   (\<forall>rel t0 t1 t2 t3.
      distinct (map fst rel) \<and> set rel = {(0, t0), (1, t1), (2, t2), (3, t3)} \<and>
      t0 < 0xFFFFFFFF \<and> t2 < 0xFFFFFFFF \<longrightarrow>
        brelse_all rel four_read = Inr (four_released t0 t1 t2 t3) \<and>
        (\<exists>c'. bread 4 2 0 5 (four_released t0 t1 t2 t3) = Inr (if t0 < t2 then 0 else 2, c') \<and>
           map (\<lambda>b. (dev b, blockno b)) (bufs c') =
             (if t0 < t2 then [(0, 5), (0, 2), (0, 3), (0, 4)]
              else [(0, 1), (0, 2), (0, 5), (0, 4)]) \<and>
           distinct (map (\<lambda>b. (dev b, blockno b)) (bufs c')) \<and>
           map valid (bufs c') = [1, 1, 1, 1] \<and>
           bcache_size c' = 4 \<and> buckets c' = buckets four_read))"
proof -
  have 1: "map (\<lambda>b. (dev b, blockno b)) (bufs four_read) = [(0, 1), (0, 2), (0, 3), (0, 4)]"
    "bcache_size four_read = 4" "buckets four_read ! HASH 2 5 = [2, 0]"
    by (simp_all add: four_read_def cached_def HASH2)
  have 2: "\<exists>c'. bread 4 2 0 5 (four_released t0 t1 t2 t3) = Inr (if t0 < t2 then 0 else 2, c') \<and>
           map (\<lambda>b. (dev b, blockno b)) (bufs c') =
             (if t0 < t2 then [(0, 5), (0, 2), (0, 3), (0, 4)]
              else [(0, 1), (0, 2), (0, 5), (0, 4)]) \<and>
           distinct (map (\<lambda>b. (dev b, blockno b)) (bufs c')) \<and>
           map valid (bufs c') = [1, 1, 1, 1] \<and>
           bcache_size c' = 4 \<and> buckets c' = buckets four_read"
    if "t0 < 0xFFFFFFFF" "t2 < 0xFFFFFFFF" for t0 t1 t2 t3 :: "32 word"
  proof -
    from read5_after_release[OF that[unfolded max_uint], of t1 t3] show ?thesis
      by (simp add: four_released_def four_read_def released_def cached_def)
  qed
  from four_reads 1 2 four_releases show ?thesis by blast
qed

theorem four_reads_then_fifth_witness:
  "distinct (map fst [(1 :: nat, 1 :: 32 word), (0, 2), (2, 3), (3, 4)]) \<and>
   brelse_all [(1, 1), (0, 2), (2, 3), (3, 4)] four_read = Inr (four_released 2 1 3 4) \<and>
   (\<exists>c'. bread 4 2 0 5 (four_released 2 1 3 4) = Inr (0, c') \<and>
      map (\<lambda>b. (dev b, blockno b)) (bufs c') = [(0, 5), (0, 2), (0, 3), (0, 4)] \<and>
      map valid (bufs c') = [1, 1, 1, 1])"
proof -
  have d: "distinct (map fst [(1 :: nat, 1 :: 32 word), (0, 2), (2, 3), (3, 4)])" by simp
  have s: "set [(1 :: nat, 1 :: 32 word), (0, 2), (2, 3), (3, 4)] = {(0, 2), (1, 1), (2, 3), (3, 4)}"
    by auto
  have t: "(2 :: 32 word) < 0xFFFFFFFF" "(3 :: 32 word) < 0xFFFFFFFF" by simp_all
  from four_reads_then_fifth[THEN conjunct2, THEN conjunct2, THEN conjunct2, THEN conjunct2,
      rule_format, of "[(1, 1), (0, 2), (2, 3), (3, 4)]" 2 1 3 4] d s t
  have "brelse_all [(1, 1), (0, 2), (2, 3), (3, 4)] four_read = Inr (four_released 2 1 3 4) \<and>
   (\<exists>c'. bread 4 2 0 5 (four_released 2 1 3 4) = Inr (0, c') \<and>
      map (\<lambda>b. (dev b, blockno b)) (bufs c') = [(0, 5), (0, 2), (0, 3), (0, 4)] \<and>
      map valid (bufs c') = [1, 1, 1, 1])"
    by auto
  with d show ?thesis by blast
qed

text \<open>
  The buffer with the oldest release tick of the four is not always the one evicted:
  when block 2 is released first (tick 1) and blocks 1, 3, 4 after it (ticks 2, 3, 4),
  reading (0,5) evicts the buffer of block 1, released at tick 2. And when the four are
  released in the order they were read, all within the tick 7, reading (0,5) evicts the
  buffer of block 3, the third to be released.
\<close>

theorem oldest_not_evicted_counterexample:
  "bread_all 4 2 [(0, 1), (0, 2), (0, 3), (0, 4)] (binit 4 2) = Inr ([0, 1, 2, 3], four_read) \<and>
   brelse_all [(1, 1), (0, 2), (2, 3), (3, 4)] four_read = Inr (four_released 2 1 3 4) \<and>
   map timestamp (bufs (four_released 2 1 3 4)) = [2, 1, 3, 4] \<and>
   map blockno (bufs (four_released 2 1 3 4)) = [1, 2, 3, 4] \<and>
   bread 4 2 0 5 (four_released 2 1 3 4) =
     Inr (0, (four_released 2 1 3 4)\<lparr>bufs := (bufs (four_released 2 1 3 4))
                [0 := (cached 0 5)\<lparr>timestamp := 2\<rparr>]\<rparr>) \<and>
   brelse_all [(0, 7), (1, 7), (2, 7), (3, 7)] four_read = Inr (four_released 7 7 7 7) \<and>
   bread 4 2 0 5 (four_released 7 7 7 7) =
     Inr (2, (four_released 7 7 7 7)\<lparr>bufs := (bufs (four_released 7 7 7 7))
                [2 := (cached 0 5)\<lparr>timestamp := 7\<rparr>]\<rparr>)"
proof -
  have d: "distinct (map fst [(1 :: nat, 1 :: 32 word), (0, 2), (2, 3), (3, 4)])" by simp
  have s: "set [(1 :: nat, 1 :: 32 word), (0, 2), (2, 3), (3, 4)] = {(0, 2), (1, 1), (2, 3), (3, 4)}"
    by auto
  have r: "bread 4 2 0 5 (four_released 2 1 3 4) =
     Inr (0, (four_released 2 1 3 4)\<lparr>bufs := (bufs (four_released 2 1 3 4))
                [0 := (cached 0 5)\<lparr>timestamp := 2\<rparr>]\<rparr>)"
    using read5_after_release[of 2 3 1 4] by simp
  have m: "map timestamp (bufs (four_released 2 1 3 4)) = [2, 1, 3, 4]"
    "map blockno (bufs (four_released 2 1 3 4)) = [1, 2, 3, 4]"
    by (simp_all add: four_released_def released_def cached_def)
  have d': "distinct (map fst [(0 :: nat, 7 :: 32 word), (1, 7), (2, 7), (3, 7)])" by simp
  have s': "set [(0 :: nat, 7 :: 32 word), (1, 7), (2, 7), (3, 7)] = {(0, 7), (1, 7), (2, 7), (3, 7)}"
    by auto
  have r': "bread 4 2 0 5 (four_released 7 7 7 7) =
     Inr (2, (four_released 7 7 7 7)\<lparr>bufs := (bufs (four_released 7 7 7 7))
                [2 := (cached 0 5)\<lparr>timestamp := 7\<rparr>]\<rparr>)"
    using read5_after_release[of 7 7 7 7] by simp
  from four_reads four_releases[OF d s] r m four_releases[OF d' s'] r' show ?thesis by blast
qed

theorem eviction_spares_live_buffers_witness:
  "scan_bucket (bufs one_released) True 0 5 [2, 0] None (- 1) = Inr (Some 0, 7) \<and>
   refcnt (bufs one_released ! 0) = 0 \<and>
   refcnt (bufs one_released ! 2) \<noteq> 0 \<and>
   (\<exists>c'. evict_loop 2 2 1 0 5 one_released = Inr (0, c') \<and>
      dev (bufs c' ! 2) = dev (bufs one_released ! 2) \<and>
      blockno (bufs c' ! 2) = blockno (bufs one_released ! 2) \<and>
      blockno (bufs c' ! 0) = 5) \<and>
   bget 4 2 0 5 one_released = evict_loop 2 2 (HASH 2 5) 0 5 one_released"
proof -
  have b: "bufs one_released = [released 7 (cached 0 1), cached 0 2, cached 0 3, cached 0 4]"
    "buckets one_released = [[3, 1], [2, 0]]" "bcache_size one_released = 4"
    by (simp_all add: one_released_def four_read_def)
  have sc: "scan_bucket (bufs one_released) True 0 5 [2, 0] None (- 1) = Inr (Some 0, 7)"
    by (simp add: b released_def cached_def)
  have live: "refcnt (bufs one_released ! 2) \<noteq> 0"
    by (simp add: b cached_def)
  have ev: "\<exists>c'. evict_loop 2 2 1 0 5 one_released = Inr (0, c')"
    by (simp add: evict_loop_2 b HASH2 released_def cached_def acquiresleep_def Let_def)
  then obtain c' where c': "evict_loop 2 2 1 0 5 one_released = Inr (0, c')" by blast
  have fc: "find_cached (bufs one_released) 0 5 (buckets one_released ! HASH 2 5) = None
      \<and> \<not> bcache_size one_released < 4"
    by (simp add: b HASH2 released_def cached_def)
  note t = eviction_spares_live_buffers[of "bufs one_released" True 0 5 "[2, 0]" 2 2 1 one_released 4]
  from t[THEN conjunct1, rule_format, OF sc]
  have 1: "refcnt (bufs one_released ! 0) = 0" by simp
  from t[THEN conjunct2, THEN conjunct1, rule_format, OF c'] live
  have 2: "dev (bufs c' ! 2) = dev (bufs one_released ! 2) \<and>
      blockno (bufs c' ! 2) = blockno (bufs one_released ! 2) \<and>
      blockno (bufs c' ! 0) = 5"
    by (simp add: b)
  from t[THEN conjunct2, THEN conjunct2] fc
  have 3: "bget 4 2 0 5 one_released = evict_loop 2 2 (HASH 2 5) 0 5 one_released"
    by (simp add: HASH2)
  from sc 1 live c' 2 3 show ?thesis by blast
qed

subsection \<open>The choice of the victim\<close>

lemma find_cached_None:
  "find_cached bs d n xs = None \<Longrightarrow> \<forall>b\<in>set xs. key_of bs b \<noteq> (d, n)"
  by (induction xs) (auto simp add: key_of_def split: if_splits)

lemma scan_bucket_none:
  "\<forall>b\<in>set xs. \<not> (target \<and> key_of bs b = (d, n)) \<Longrightarrow>
   \<forall>b\<in>set xs. \<not> (refcnt (bs ! b) = 0 \<and> timestamp (bs ! b) < mts) \<Longrightarrow>
   scan_bucket bs target d n xs minb mts = Inr (minb, mts)"
  by (induction xs) (auto simp add: key_of_def)

lemma scan_bucket_prefix:
  "\<forall>b\<in>set ys. \<not> (target \<and> key_of bs b = (d, n)) \<Longrightarrow>
   \<forall>b\<in>set ys. refcnt (bs ! b) = 0 \<longrightarrow> t < timestamp (bs ! b) \<Longrightarrow> t < mts \<Longrightarrow>
   \<exists>minb' mts'. scan_bucket bs target d n (ys @ rest) minb mts =
       scan_bucket bs target d n rest minb' mts' \<and> t < mts'"
proof (induction ys arbitrary: minb mts)
  case Nil
  then show ?case by auto
next
  case (Cons b ys)
  from Cons.prems have nh: "\<not> (target \<and> dev (bs ! b) = d \<and> blockno (bs ! b) = n)"
    by (auto simp add: key_of_def)
  from Cons.prems have p: "\<forall>b\<in>set ys. \<not> (target \<and> key_of bs b = (d, n))"
    "\<forall>b\<in>set ys. refcnt (bs ! b) = 0 \<longrightarrow> t < timestamp (bs ! b)" by auto
  show ?case
  proof (cases "refcnt (bs ! b) = 0 \<and> timestamp (bs ! b) < mts")
    case True
    then have "t < timestamp (bs ! b)" using Cons.prems(2) by auto
    from Cons.IH[OF p this, of "Some b"] nh True show ?thesis by auto
  next
    case False
    from Cons.IH[OF p Cons.prems(3), of minb] nh False show ?thesis by auto
  qed
qed

lemma scan_bucket_first_minimum:
  assumes nh: "\<forall>b\<in>set (ys @ v # zs). \<not> (target \<and> key_of bs b = (d, n))"
    and v: "evictable bs v"
    and ys: "\<forall>b\<in>set ys. refcnt (bs ! b) = 0 \<longrightarrow> timestamp (bs ! v) < timestamp (bs ! b)"
    and zs: "\<forall>b\<in>set zs. refcnt (bs ! b) = 0 \<longrightarrow> timestamp (bs ! v) \<le> timestamp (bs ! b)"
  shows "scan_bucket bs target d n (ys @ v # zs) None (- 1) = Inr (Some v, timestamp (bs ! v))"
proof -
  from nh have nhy: "\<forall>b\<in>set ys. \<not> (target \<and> key_of bs b = (d, n))"
    and nhv: "\<not> (target \<and> dev (bs ! v) = d \<and> blockno (bs ! v) = n)"
    and nhz: "\<forall>b\<in>set zs. \<not> (target \<and> key_of bs b = (d, n))"
    by (auto simp add: key_of_def)
  from v have lt: "timestamp (bs ! v) < - 1" and r: "refcnt (bs ! v) = 0"
    by (simp_all add: evictable_def)
  from scan_bucket_prefix[OF nhy ys lt, of "v # zs" None]
  obtain minb' mts' where a: "scan_bucket bs target d n (ys @ v # zs) None (- 1) =
       scan_bucket bs target d n (v # zs) minb' mts'" and b: "timestamp (bs ! v) < mts'"
    by blast
  have "\<forall>b\<in>set zs. \<not> (refcnt (bs ! b) = 0 \<and> timestamp (bs ! b) < timestamp (bs ! v))"
    using zs by (auto simp add: not_less)
  from scan_bucket_none[OF nhz this, of "Some v"] nhv r b
  have "scan_bucket bs target d n (v # zs) minb' mts' = Inr (Some v, timestamp (bs ! v))"
    by simp
  with a show ?thesis by simp
qed

lemma evict_loop_skip:
  assumes "\<forall>b\<in>set (buckets c ! idx). \<not> (idx = HASH nbucket n \<and> key_of (bufs c) b = (d, n))"
    and "\<forall>b\<in>set (buckets c ! idx). \<not> evictable (bufs c) b"
  shows "evict_loop nbucket (Suc k) idx d n c =
     evict_loop nbucket k (if idx + 1 = nbucket then 0 else idx + 1) d n c"
proof -
  from assms(2) have "\<forall>b\<in>set (buckets c ! idx).
      \<not> (refcnt (bufs c ! b) = 0 \<and> timestamp (bufs c ! b) < - 1)"
    by (simp add: evictable_def)
  from scan_bucket_none[OF assms(1) this, of None] show ?thesis by simp
qed

lemma evict_loop_skips:
  "idx < nbucket \<Longrightarrow>
   \<forall>i<j. \<forall>b\<in>set (buckets c ! ((idx + i) mod nbucket)).
      \<not> ((idx + i) mod nbucket = HASH nbucket n \<and> key_of (bufs c) b = (d, n)) \<and>
      \<not> evictable (bufs c) b \<Longrightarrow>
   evict_loop nbucket (j + k) idx d n c = evict_loop nbucket k ((idx + j) mod nbucket) d n c"
proof (induction j arbitrary: idx)
  case 0
  then show ?case by simp
next
  case (Suc j)
  define nxt where "nxt = (if idx + 1 = nbucket then 0 else idx + 1)"
  have nx: "nxt = (idx + 1) mod nbucket" "nxt < nbucket"
    using Suc.prems(1) by (auto simp add: nxt_def)
  have m: "(nxt + i) mod nbucket = (idx + Suc i) mod nbucket" for i
    by (simp add: nx(1) mod_add_left_eq)
  from Suc.prems(2)[rule_format, of 0] Suc.prems(1)
  have here: "\<forall>b\<in>set (buckets c ! idx). \<not> (idx = HASH nbucket n \<and> key_of (bufs c) b = (d, n))"
    "\<forall>b\<in>set (buckets c ! idx). \<not> evictable (bufs c) b"
    by auto
  have rest: "\<forall>i<j. \<forall>b\<in>set (buckets c ! ((nxt + i) mod nbucket)).
      \<not> ((nxt + i) mod nbucket = HASH nbucket n \<and> key_of (bufs c) b = (d, n)) \<and>
      \<not> evictable (bufs c) b"
  proof (intro allI impI)
    fix i assume "i < j"
    then have "Suc i < Suc j" by simp
    from Suc.prems(2)[rule_format, OF this]
    show "\<forall>b\<in>set (buckets c ! ((nxt + i) mod nbucket)).
      \<not> ((nxt + i) mod nbucket = HASH nbucket n \<and> key_of (bufs c) b = (d, n)) \<and>
      \<not> evictable (bufs c) b"
      unfolding m by blast
  qed
  have "evict_loop nbucket (Suc j + k) idx d n c = evict_loop nbucket (j + k) nxt d n c"
    using evict_loop_skip[OF here, of "j + k"] by (simp add: nxt_def)
  also have "\<dots> = evict_loop nbucket k ((nxt + j) mod nbucket) d n c"
    by (rule Suc.IH[OF nx(2) rest])
  finally show ?case unfolding m .
qed

text \<open>
  What the eviction scan does for a block that is not cached, with all slots claimed: it
  visits the buckets in round-robin order from the bucket of the block, passes over every
  bucket without a buffer it can take, and in the first bucket that has one takes the
  buffer with the smallest timestamp, the first on the chain among equals.
\<close>

lemma bget_victim_choice:
  assumes nb: "0 < nbucket"
    and miss: "find_cached (bufs c) d n (buckets c ! HASH nbucket n) = None"
    and full: "\<not> bcache_size c < nbuf"
    and j: "j < nbucket"
    and skip: "\<forall>i<j. \<forall>b\<in>set (buckets c ! ((HASH nbucket n + i) mod nbucket)).
                 \<not> evictable (bufs c) b"
    and chain: "buckets c ! ((HASH nbucket n + j) mod nbucket) = ys @ v # zs"
    and v: "evictable (bufs c) v" "v < length (bufs c)" "\<not> locked (bufs c ! v)"
    and ys: "\<forall>b\<in>set ys. refcnt (bufs c ! b) = 0 \<longrightarrow>
               timestamp (bufs c ! v) < timestamp (bufs c ! b)"
    and zs: "\<forall>b\<in>set zs. refcnt (bufs c ! b) = 0 \<longrightarrow>
               timestamp (bufs c ! v) \<le> timestamp (bufs c ! b)"
  shows "\<exists>c'. bget nbuf nbucket d n c = Inr (v, c') \<and>
           key_of (bufs c') v = (d, n) \<and>
           (\<forall>b. b \<noteq> v \<longrightarrow> bufs c' ! b = bufs c ! b)"
proof -
  let ?h = "HASH nbucket n"
  let ?idx = "(?h + j) mod nbucket"
  have h: "?h < nbucket" using nb by (simp add: HASH_def)
  have nokey: "\<forall>b\<in>set (buckets c ! ?h). key_of (bufs c) b \<noteq> (d, n)"
    using find_cached_None[OF miss] .
  have sk: "\<forall>i<j. \<forall>b\<in>set (buckets c ! ((?h + i) mod nbucket)).
      \<not> ((?h + i) mod nbucket = ?h \<and> key_of (bufs c) b = (d, n)) \<and>
      \<not> evictable (bufs c) b"
    using skip nokey by auto
  obtain k where k: "nbucket = j + Suc k" using j by (metis less_imp_Suc_add add_Suc_right)
  have e: "bget nbuf nbucket d n c = evict_loop nbucket (Suc k) ?idx d n c"
    using evict_loop_skips[OF h sk, of "Suc k"] miss full k by (simp add: bget_def Let_def)
  have nh: "\<forall>b\<in>set (ys @ v # zs). \<not> (?idx = ?h \<and> key_of (bufs c) b = (d, n))"
    using nokey chain by auto
  have s: "scan_bucket (bufs c) (?idx = ?h) d n (buckets c ! ?idx) None (- 1) =
      Inr (Some v, timestamp (bufs c ! v))"
    unfolding chain by (rule scan_bucket_first_minimum[OF nh v(1) ys zs])
  show ?thesis
    unfolding e using s v(2,3)
    by (auto simp add: Let_def acquiresleep_def key_of_def)
qed

text \<open>
  Claim C10 at a state where it fails. The scan starts with \<open>mintimestamp = -1\<close>, the
  largest \<open>uint\<close>, and takes a buffer only if its timestamp is smaller: a buffer released
  at the tick \<open>2^32 - 1\<close> is never taken. With blocks 2 and 4 released at the ticks 5 and 6
  and blocks 1 and 3 at the tick \<open>2^32 - 1\<close>, \<open>bget\<close> for (0,5) starts at bucket 1, whose two
  buffers both have \<open>refcnt == 0\<close>, passes it over, and takes the buffer of block 2 from
  bucket 0. With all four released at the tick \<open>2^32 - 1\<close> it panics, although every
  buffer has \<open>refcnt == 0\<close>.
\<close>

theorem sentinel_timestamp_not_evicted:
  "brelse_all [(1, 5), (3, 6), (0, 0xFFFFFFFF), (2, 0xFFFFFFFF)] four_read =
     Inr (four_released 0xFFFFFFFF 5 0xFFFFFFFF 6) \<and>
   buckets (four_released 0xFFFFFFFF 5 0xFFFFFFFF 6) ! HASH 2 5 = [2, 0] \<and>
   map refcnt (bufs (four_released 0xFFFFFFFF 5 0xFFFFFFFF 6)) = [0, 0, 0, 0] \<and>
   bget 4 2 0 5 (four_released 0xFFFFFFFF 5 0xFFFFFFFF 6) =
     Inr (1, (four_released 0xFFFFFFFF 5 0xFFFFFFFF 6)
           \<lparr>bufs := (bufs (four_released 0xFFFFFFFF 5 0xFFFFFFFF 6))
              [1 := \<lparr>valid = 0, dev = 0, blockno = 5, locked = True, refcnt = 1, timestamp = 5\<rparr>],
            buckets := [[3], [1, 2, 0]]\<rparr>) \<and>
   bget 4 2 0 5 (four_released 0xFFFFFFFF 0xFFFFFFFF 0xFFFFFFFF 0xFFFFFFFF) =
     Inl (Panic ''bget: no buffers'')"
proof -
  have d: "distinct (map fst [(1 :: nat, 5 :: 32 word), (3, 6), (0, 0xFFFFFFFF), (2, 0xFFFFFFFF)])"
    by simp
  have s: "set [(1 :: nat, 5 :: 32 word), (3, 6), (0, 0xFFFFFFFF), (2, 0xFFFFFFFF)] =
      {(0, 0xFFFFFFFF), (1, 5), (2, 0xFFFFFFFF), (3, 6)}"
    by auto
  have 1: "bget 4 2 0 5 (four_released 0xFFFFFFFF 5 0xFFFFFFFF 6) =
     Inr (1, (four_released 0xFFFFFFFF 5 0xFFFFFFFF 6)
           \<lparr>bufs := (bufs (four_released 0xFFFFFFFF 5 0xFFFFFFFF 6))
              [1 := \<lparr>valid = 0, dev = 0, blockno = 5, locked = True, refcnt = 1, timestamp = 5\<rparr>],
            buckets := [[3], [1, 2, 0]]\<rparr>)"
    by (simp add: bget_def HASH2 four_released_def released_def cached_def Let_def
        evict_loop_2 acquiresleep_def)
  have 2: "bget 4 2 0 5 (four_released 0xFFFFFFFF 0xFFFFFFFF 0xFFFFFFFF 0xFFFFFFFF) =
     Inl (Panic ''bget: no buffers'')"
    by (simp add: bget_def HASH2 four_released_def released_def cached_def Let_def
        evict_loop_2 acquiresleep_def)
  have 3: "buckets (four_released 0xFFFFFFFF 5 0xFFFFFFFF 6) ! HASH 2 5 = [2, 0]"
    "map refcnt (bufs (four_released 0xFFFFFFFF 5 0xFFFFFFFF 6)) = [0, 0, 0, 0]"
    by (simp_all add: four_released_def released_def cached_def HASH2)
  from four_releases[OF d s] 1 2 3 show ?thesis by blast
qed

end
